theory Spec2Isabelle
  imports Main "HOL-Library.Char_ord" "HOL-Library.List_Lexorder"
begin

section \<open>The function-manifest command (cli/utils.ts)\<close>

text \<open>
  \<^verbatim>\<open>getFunctionSpec(prod?, filePath?)\<close> reads a manifest from a file, or runs
  \<^verbatim>\<open>npx convex function-spec\<close> with its standard output sent to a temporary file.
  The model makes the outside world explicit: the file system (regular, readable files
  only), the list of commands spawned so far, and the console.
\<close>

type_synonym path = string

record world =
  files :: "path \<rightharpoonup> string"
  spawned :: "string list list"
  console :: "string list"

text \<open>What \<^verbatim>\<open>spawnSync\<close> reports; \<open>status\<close> is \<open>None\<close> for JavaScript's null.\<close>

record spawn_result =
  status :: "int option"
  stderr :: string
  stdout :: string

text \<open>
  The surroundings of one call: \<^verbatim>\<open>os.tmpdir()\<close>, \<^verbatim>\<open>Date.now()\<close>, whether the
  temporary directory accepts a new file, and what the external command answers to a
  given argument vector.
\<close>

record env =
  tmpdir :: path
  now :: nat
  tmp_writable :: bool
  npx :: "string list \<Rightarrow> spawn_result"

text \<open>
  A call ends in one of three ways. \<open>Exited\<close> is \<^verbatim>\<open>process.exit(code)\<close>: the
  process stops at that statement, nothing after it runs, a pending \<^verbatim>\<open>finally\<close>
  block included. \<open>Threw\<close> is an exception that leaves the function.
\<close>

datatype 'a outcome = Returned 'a | Threw string | Exited nat

definition digit_char :: "nat \<Rightarrow> char" where
  "digit_char d = ''0123456789'' ! d"

fun digits :: "nat \<Rightarrow> string" where
  "digits n = (if n < 10 then [digit_char n] else digits (n div 10) @ [digit_char (n mod 10)])"

declare digits.simps [simp del]

text \<open>\<^verbatim>\<open>path.join(os.tmpdir(), `function-spec-${Date.now()}.json`)\<close>, without the
  normalisation \<^verbatim>\<open>path.join\<close> performs.\<close>

definition tempFile :: "env \<Rightarrow> path" where
  "tempFile e = tmpdir e @ ''/function-spec-'' @ digits (now e) @ ''.json''"

text \<open>JavaScript truthiness of the two optional parameters: \<^verbatim>\<open>undefined\<close>, the empty
  string and \<^verbatim>\<open>false\<close> are falsy.\<close>

fun given_path :: "string option \<Rightarrow> path option" where
  "given_path None = None"
| "given_path (Some p) = (if p = [] then None else Some p)"

fun is_prod :: "bool option \<Rightarrow> bool" where
  "is_prod None = False"
| "is_prod (Some b) = b"

definition existsSync :: "world \<Rightarrow> path \<Rightarrow> bool" where
  "existsSync w p = (files w p \<noteq> None)"

definition readFileSync :: "world \<Rightarrow> path \<Rightarrow> string + string" where
  "readFileSync w p = (case files w p of None \<Rightarrow> Inl ''ENOENT'' | Some c \<Rightarrow> Inr c)"

text \<open>\<^verbatim>\<open>fs.openSync(tempFile, "w")\<close> creates the file, or empties it.\<close>

definition openSync :: "env \<Rightarrow> world \<Rightarrow> path \<Rightarrow> string + world" where
  "openSync e w p =
     (if tmp_writable e then Inr (w\<lparr>files := (files w)(p \<mapsto> [])\<rparr>) else Inl ''EACCES'')"

text \<open>\<^verbatim>\<open>spawnSync("npx", ["convex", "function-spec", ...flags], {stdio: [.., outputFd, ..]})\<close>:
  the command's standard output becomes the content of the open file.\<close>

definition spawnSync :: "env \<Rightarrow> world \<Rightarrow> string list \<Rightarrow> path \<Rightarrow> spawn_result \<times> world" where
  "spawnSync e w argv out =
     (let r = npx e argv
      in (r, w\<lparr>files := (files w)(out \<mapsto> stdout r), spawned := spawned w @ [argv]\<rparr>))"

definition console_log :: "string \<Rightarrow> world \<Rightarrow> world" where
  "console_log msg w = w\<lparr>console := console w @ [msg]\<rparr>"

text \<open>The \<^verbatim>\<open>finally\<close> block: \<^verbatim>\<open>unlinkSync\<close> inside its own try, a warning when it
  raises.\<close>

definition unlink_or_warn :: "world \<Rightarrow> path \<Rightarrow> world" where
  "unlink_or_warn w p =
     (if existsSync w p then w\<lparr>files := (files w)(p := None)\<rparr>
      else console_log ''Warning: Failed to delete temporary file'' w)"

text \<open>The body of the \<^verbatim>\<open>try\<close> block: \<open>Inl\<close> is a raised exception, together with
  the world at the moment it is raised.\<close>

definition spawn_and_read :: "env \<Rightarrow> bool option \<Rightarrow> world \<Rightarrow> (string \<times> world) + (string \<times> world)" where
  "spawn_and_read e prodFlag w =
     (case openSync e w (tempFile e) of
        Inl err \<Rightarrow> Inl (err, w)
      | Inr w1 \<Rightarrow>
          (let flags = (if is_prod prodFlag then [''--prod''] else []);
               (result, w2) = spawnSync e w1 ([''npx'', ''convex'', ''function-spec''] @ flags) (tempFile e)
           in if status result \<noteq> Some 0
              then Inl (if stderr result \<noteq> [] then stderr result else ''Failed without error message'', w2)
              else (case readFileSync w2 (tempFile e) of
                      Inl err \<Rightarrow> Inl (err, w2)
                    | Inr content \<Rightarrow> Inr (content, w2))))"

definition getFunctionSpec :: "env \<Rightarrow> bool option \<Rightarrow> string option \<Rightarrow> world \<Rightarrow> string outcome \<times> world" where
  "getFunctionSpec e prodFlag filePath w =
     (case given_path filePath of
        Some p \<Rightarrow>
          (if is_prod prodFlag
           then (Exited 1, console_log ''To use the prod flag, you can't provide a file path'' w)
           else if \<not> existsSync w p
           then (Exited 1, console_log (''File '' @ p @ '' not found'') w)
           else (case readFileSync w p of
                   Inl err \<Rightarrow> (Threw err, w)
                 | Inr content \<Rightarrow> (Returned content, w)))
      | None \<Rightarrow>
          (case spawn_and_read e prodFlag w of
             Inl (err, w') \<Rightarrow>
               (Exited 1, console_log ''Error retrieving function spec from your Convex deployment.'' w')
           | Inr (content, w') \<Rightarrow> (Returned content, unlink_or_warn w' (tempFile e))))"


section \<open>Query identities and results (hooks/cache/hooks.tsx)\<close>

text \<open>
  A Convex value, as far as it matters here: JavaScript numbers are taken to be
  integers, an object is the list of its entries in insertion order, and \<open>VOpaque\<close>
  stands for anything that cannot be serialised (a function, a symbol, a handle).
\<close>

datatype cvalue =
    VNull
  | VBool bool
  | VNum int
  | VStr string
  | VArr "cvalue list"
  | VObj "(string \<times> cvalue) list"
  | VOpaque nat

type_synonym fref = string
type_synonym qkey = string
type_synonym handle = string
type_synonym args = "(string \<times> cvalue) list"

text \<open>What a query yields at some moment: \<^verbatim>\<open>undefined\<close> while loading, a value, or an
  instance of \<^verbatim>\<open>Error\<close> (with its message).\<close>

datatype result = RUndefined | RValue cvalue | RError string

text \<open>The argument of \<^verbatim>\<open>useQuery\<close>: an argument object or the string \<^verbatim>\<open>"skip"\<close>.\<close>

datatype query_args = Skip | Args args

section \<open>The key deriver\<close>

text \<open>
  Modelled from the spec: the key deriver and the equivalence of query identities live in
  \<^verbatim>\<open>hooks/cache/core.ts\<close>, which is missing from the sources; sections 3 and 4.1
  describe them. This section follows those two sections.

  An object of JavaScript has each key once; \<open>wf_value\<close> says so at every depth. The
  supported domain is every value without an opaque part.
\<close>

fun wf_value :: "cvalue \<Rightarrow> bool" where
  "wf_value (VArr xs) = list_all wf_value xs"
| "wf_value (VObj kvs) = (distinct (map fst kvs) \<and> list_all (\<lambda>kv. wf_value (snd kv)) kvs)"
| "wf_value v = True"

fun supported :: "cvalue \<Rightarrow> bool" where
  "supported (VOpaque n) = False"
| "supported (VArr xs) = list_all supported xs"
| "supported (VObj kvs) = list_all (\<lambda>kv. supported (snd kv)) kvs"
| "supported v = True"

text \<open>
  Modelled from the spec: deep equality irrespective of key insertion order (section 3).
  Two mappings are equal when they have the same keys and equal values under each key;
  sequences are equal element by element.
\<close>

fun deep_eq :: "cvalue \<Rightarrow> cvalue \<Rightarrow> bool" where
  "deep_eq VNull w = (w = VNull)"
| "deep_eq (VBool b) w = (w = VBool b)"
| "deep_eq (VNum i) w = (w = VNum i)"
| "deep_eq (VStr s) w = (w = VStr s)"
| "deep_eq (VOpaque n) w = (w = VOpaque n)"
| "deep_eq (VArr xs) w = (case w of VArr ys \<Rightarrow> list_all2 deep_eq xs ys | _ \<Rightarrow> False)"
| "deep_eq (VObj kvs) w =
     (case w of
        VObj kvs' \<Rightarrow>
          set (map fst kvs) = set (map fst kvs') \<and>
          list_all (\<lambda>kv. case map_of kvs' (fst kv) of
                           None \<Rightarrow> False
                         | Some v' \<Rightarrow> deep_eq (snd kv) v') kvs
      | _ \<Rightarrow> False)"

text \<open>Modelled from the spec: two query identities are equivalent when the function
  references are identical and the argument mappings deeply equal (section 3).\<close>

definition equivalent :: "fref \<times> args \<Rightarrow> fref \<times> args \<Rightarrow> bool" where
  "equivalent a b = (fst a = fst b \<and> deep_eq (VObj (snd a)) (VObj (snd b)))"

text \<open>
  Modelled from the spec: \<^verbatim>\<open>createQueryKey\<close> of \<^verbatim>\<open>hooks/cache/core.ts\<close> is missing from
  the sources; section 4.1 describes it as \<open>derive\<close>. The argument mapping is made
  canonical by sorting the keys of every mapping in it, then function reference and
  arguments are written into one string; there is no key for arguments outside the
  supported domain, nor for the skip sentinel. The specification leaves the encoding
  open; the one below is JSON with a comma after every element.
\<close>

fun canon :: "cvalue \<Rightarrow> cvalue" where
  "canon (VArr xs) = VArr (map canon xs)"
| "canon (VObj kvs) = VObj (sort_key fst (map (\<lambda>kv. (fst kv, canon (snd kv))) kvs))"
| "canon v = v"

fun escape :: "string \<Rightarrow> string" where
  "escape [] = []"
| "escape (c # cs) =
     (if c = CHR 0x22 \<or> c = CHR 0x5C then [CHR 0x5C, c] else [c]) @ escape cs"

definition quote :: "string \<Rightarrow> string" where
  "quote s = [CHR 0x22] @ escape s @ [CHR 0x22]"

fun ser :: "cvalue \<Rightarrow> string" where
  "ser VNull = ''null''"
| "ser (VBool b) = (if b then ''true'' else ''false'')"
| "ser (VNum i) = (if i < 0 then ''-'' else []) @ digits (nat \<bar>i\<bar>)"
| "ser (VStr s) = quote s"
| "ser (VArr xs) = ''['' @ concat (map (\<lambda>x. ser x @ '','') xs) @ '']''"
| "ser (VObj kvs) = ''{'' @ concat (map (\<lambda>kv. quote (fst kv) @ '':'' @ ser (snd kv) @ '','') kvs) @ ''}''"
| "ser (VOpaque n) = []"

definition serialize :: "fref \<Rightarrow> cvalue \<Rightarrow> qkey" where
  "serialize f v = ''['' @ quote f @ '','' @ ser v @ '']''"

fun derive :: "fref \<Rightarrow> query_args \<Rightarrow> qkey option" where
  "derive f Skip = None"
| "derive f (Args a) =
     (if supported (VObj a) then Some (serialize f (canon (VObj a))) else None)"

definition createQueryKey :: "fref \<Rightarrow> args \<Rightarrow> qkey option" where
  "createQueryKey query a = derive query (Args a)"


text \<open>Reading a decimal numeral back, used to show that the encoding loses nothing.\<close>

definition is_digit :: "char \<Rightarrow> bool" where
  "is_digit c = (c \<in> set ''0123456789'')"

definition digit_val :: "char \<Rightarrow> nat" where
  "digit_val c = of_char c - 48"

definition undigits :: "string \<Rightarrow> nat" where
  "undigits cs = foldl (\<lambda>n c. 10 * n + digit_val c) 0 cs"

fun ok_rest :: "string \<Rightarrow> bool" where
  "ok_rest [] = True"
| "ok_rest (c # cs) = (\<not> is_digit c)"

section \<open>The subscription registry\<close>

text \<open>
  Modelled from the spec: the registry class of \<^verbatim>\<open>hooks/cache/core.ts\<close> (the object
  behind \<^verbatim>\<open>registry.probe\<close>, \<^verbatim>\<open>registry.start\<close> and \<^verbatim>\<open>registry.end\<close>) is missing from
  the sources; sections 3 and 4.2 describe it. A cache entry holds the transport
  subscription it owns, the latest value, and the attached listeners in attachment
  order. The registry maps keys to entries and handles to keys. The transport and the
  notify callbacks are outside the registry: the calls made to them are recorded, in
  order, in \<open>transport\<close> and \<open>notified\<close>.
\<close>

datatype transport_call = TOpen nat fref args | TClose nat

record entry =
  sub :: nat
  cached :: result
  listeners :: "handle list"

record registry =
  entries :: "qkey \<rightharpoonup> entry"
  attached :: "handle \<rightharpoonup> qkey"
  next_sub :: nat
  transport :: "transport_call list"
  notified :: "(handle \<times> result) list"

definition empty_registry :: registry where
  "empty_registry =
     \<lparr>entries = Map.empty, attached = Map.empty, next_sub = 0, transport = [], notified = []\<rparr>"

text \<open>Modelled from the spec: \<open>probe\<close> returns the entry's current value if there is an
  entry, "absent" otherwise, and has no effect.\<close>

definition probe :: "registry \<Rightarrow> qkey \<Rightarrow> result" where
  "probe r k = (case entries r k of None \<Rightarrow> RUndefined | Some e \<Rightarrow> cached e)"

text \<open>
  Modelled from the spec: \<open>start\<close> creates the entry and opens the transport subscription
  if the key has no entry, then attaches the handle. When the entry already holds a
  value or an error, the new listener is notified of it at once (section 3: every
  attached listener has been notified of the current value, "synchronously at attach
  time if a value is already cached"). The specification requires a handle that is not
  attached yet and says nothing of one that is; here such a call changes nothing.
\<close>

definition open_entry :: "registry \<Rightarrow> qkey \<Rightarrow> fref \<Rightarrow> args \<Rightarrow> registry" where
  "open_entry r k f a =
     (case entries r k of
        Some e \<Rightarrow> r
      | None \<Rightarrow>
          r\<lparr>entries := (entries r)(k \<mapsto> \<lparr>sub = next_sub r, cached = RUndefined, listeners = []\<rparr>),
            next_sub := Suc (next_sub r),
            transport := transport r @ [TOpen (next_sub r) f a]\<rparr>)"

definition attach :: "registry \<Rightarrow> handle \<Rightarrow> qkey \<Rightarrow> registry" where
  "attach r h k =
     (case entries r k of
        None \<Rightarrow> r
      | Some e \<Rightarrow>
          r\<lparr>entries := (entries r)(k \<mapsto> e\<lparr>listeners := listeners e @ [h]\<rparr>),
            attached := (attached r)(h \<mapsto> k),
            notified := notified r @ (if cached e = RUndefined then [] else [(h, cached e)])\<rparr>)"

definition start :: "registry \<Rightarrow> handle \<Rightarrow> qkey \<Rightarrow> fref \<Rightarrow> args \<Rightarrow> registry" where
  "start r h k f a =
     (case attached r h of
        Some k' \<Rightarrow> r
      | None \<Rightarrow> attach (open_entry r k f a) h k)"

text \<open>
  Modelled from the spec: \<open>end\<close> detaches the handle from the key it is attached to; when
  it was the last listener, it closes the subscription and removes the entry. A handle
  that is not attached is left alone.
\<close>

definition end_listener :: "registry \<Rightarrow> handle \<Rightarrow> registry" where
  "end_listener r h =
     (case attached r h of
        None \<Rightarrow> r
      | Some k \<Rightarrow>
          (case entries r k of
             None \<Rightarrow> r\<lparr>attached := (attached r)(h := None)\<rparr>
           | Some e \<Rightarrow>
               (let ls = removeAll h (listeners e)
                in if ls = []
                   then r\<lparr>entries := (entries r)(k := None),
                          attached := (attached r)(h := None),
                          transport := transport r @ [TClose (sub e)]\<rparr>
                   else r\<lparr>entries := (entries r)(k \<mapsto> e\<lparr>listeners := ls\<rparr>),
                          attached := (attached r)(h := None)\<rparr>)))"

text \<open>Modelled from the spec: the transport's push callback stores the value in the entry,
  then notifies every attached listener, in attachment order.\<close>

definition push :: "registry \<Rightarrow> qkey \<Rightarrow> result \<Rightarrow> registry" where
  "push r k v =
     (case entries r k of
        None \<Rightarrow> r
      | Some e \<Rightarrow>
          r\<lparr>entries := (entries r)(k \<mapsto> e\<lparr>cached := v\<rparr>),
            notified := notified r @ map (\<lambda>h. (h, v)) (listeners e)\<rparr>)"

text \<open>A run of \<open>start\<close> calls for one key, and a run of \<open>end\<close> calls.\<close>

definition start_all :: "registry \<Rightarrow> handle list \<Rightarrow> qkey \<Rightarrow> fref \<Rightarrow> args \<Rightarrow> registry" where
  "start_all r hs k f a = fold (\<lambda>h r'. start r' h k f a) hs r"

definition end_all :: "registry \<Rightarrow> handle list \<Rightarrow> registry" where
  "end_all r hs = fold (\<lambda>h r'. end_listener r' h) hs r"

section \<open>The hooks (hooks/cache/hooks.tsx)\<close>

text \<open>
  What one render of a hook does, in order: a key derivation, a \<^verbatim>\<open>registry.probe\<close>, a
  \<^verbatim>\<open>useState\<close> with its initial value. What an effect or its cleanup asks of the
  registry: \<^verbatim>\<open>registry.start(id, queryKey, query, args, setV)\<close>, with the state slot
  that \<^verbatim>\<open>setV\<close> writes, or \<^verbatim>\<open>registry.end(id)\<close>.
\<close>

datatype hook_event = Derived fref args | Probed qkey | UsedState result

datatype registry_call = Start handle qkey fref args nat | End handle

text \<open>
  What a render can throw: the error of \<^verbatim>\<open>useQueries\<close> outside a provider, the
  \<^verbatim>\<open>Error\<close> result that \<^verbatim>\<open>useQuery\<close> rethrows, and the failure of React when a render
  does not make the same hook calls as the render before it.
\<close>

datatype hook_error = ProviderMissing | Rethrown string | HookMismatch

text \<open>An element of \<^verbatim>\<open>listens\<close>: \<^verbatim>\<open>[queryKey, query, args, setV]\<close>.\<close>

type_synonym listen = "qkey option \<times> fref \<times> args \<times> nat"

record render_state =
  results :: "string \<rightharpoonup> result"
  listens :: "listen list"
  qkeys :: "qkey option list"
  events :: "hook_event list"

definition init_render :: render_state where
  "init_render = \<lparr>results = Map.empty, listens = [], qkeys = [], events = []\<rparr>"

text \<open>
  The state hooks of a component: \<open>None\<close> before its first render, \<open>Some ss\<close> afterwards,
  where \<open>ss\<close> holds the states of the \<^verbatim>\<open>useState\<close> calls of the last render, in call
  order, as the setters have left them.

  \<^verbatim>\<open>useState(initialValue)\<close> as the \<open>i\<close>-th such call of a render: the initial value on
  the first render, the stored state afterwards. A call beyond the ones the last render
  made meets the hook of another kind (the effect) and React throws.
\<close>

definition useState :: "result list option \<Rightarrow> nat \<Rightarrow> result \<Rightarrow> hook_error + result" where
  "useState mem i initialValue =
     (case mem of
        None \<Rightarrow> Inr initialValue
      | Some ss \<Rightarrow> if i < length ss then Inr (ss ! i) else Inl HookMismatch)"

text \<open>
  \<^verbatim>\<open>useEffect\<close> after \<open>n\<close> calls of \<^verbatim>\<open>useState\<close>: when the last render made more of
  them, the effect meets a state hook and the render fails.
\<close>

definition useEffect_agrees :: "result list option \<Rightarrow> nat \<Rightarrow> bool" where
  "useEffect_agrees mem n = (case mem of None \<Rightarrow> True | Some ss \<Rightarrow> n = length ss)"

text \<open>The setter \<^verbatim>\<open>setV\<close> of slot \<open>i\<close>, called with \<open>v\<close>.\<close>

definition set_state :: "result list option \<Rightarrow> nat \<Rightarrow> result \<Rightarrow> result list option" where
  "set_state mem i v = map_option (\<lambda>ss. ss[i := v]) mem"

text \<open>
  The loop over \<^verbatim>\<open>Object.keys(queries)\<close>. \<open>cqk\<close> is \<^verbatim>\<open>createQueryKey\<close>; \<open>reg\<close> is the
  registry of the context seen through its \<^verbatim>\<open>probe\<close> method, \<open>None\<close> for \<^verbatim>\<open>null\<close>.
  \<open>Inl\<close> is an error thrown inside the loop, with the events up to it.
\<close>

fun useQueries_loop ::
  "(fref \<Rightarrow> args \<Rightarrow> qkey option) \<Rightarrow> (qkey \<Rightarrow> result) option \<Rightarrow> result list option \<Rightarrow>
   (string \<times> fref \<times> args) list \<Rightarrow> render_state \<Rightarrow>
   (hook_error \<times> hook_event list) + render_state" where
  "useQueries_loop cqk reg mem [] st = Inr st"
| "useQueries_loop cqk reg mem ((key, query, a) # rest) st =
     (let queryKey = cqk query a;
          (probes, initialValue) =
             (case reg of
                None \<Rightarrow> ([], RUndefined)
              | Some prb \<Rightarrow>
                  (case queryKey of
                     None \<Rightarrow> ([], RUndefined)
                   | Some k \<Rightarrow> ([Probed k], prb k)));
          slot = length (listens st);
          evs = events st @ [Derived query a] @ probes
      in case useState mem slot initialValue of
           Inl err \<Rightarrow> Inl (err, evs)
         | Inr v \<Rightarrow>
             useQueries_loop cqk reg mem rest
               (st\<lparr>results := (results st)(key \<mapsto> v),
                   listens := listens st @ [(queryKey, query, a, slot)],
                   qkeys := qkeys st @ [queryKey],
                   events := evs @ [UsedState initialValue]\<rparr>))"

text \<open>
  One render of \<^verbatim>\<open>useQueries\<close>: the events of the render, and either the error thrown
  or the results together with the \<^verbatim>\<open>listens\<close> the effect will run on.
\<close>

definition useQueries ::
  "(fref \<Rightarrow> args \<Rightarrow> qkey option) \<Rightarrow> (qkey \<Rightarrow> result) option \<Rightarrow> result list option \<Rightarrow>
   (string \<times> fref \<times> args) list \<Rightarrow>
   hook_event list \<times> (hook_error + (string \<rightharpoonup> result) \<times> listen list)" where
  "useQueries cqk reg mem queries =
     (case useQueries_loop cqk reg mem queries init_render of
        Inl (err, evs) \<Rightarrow> (evs, Inl err)
      | Inr st \<Rightarrow>
          (case reg of
             None \<Rightarrow> (events st, Inl ProviderMissing)
           | Some prb \<Rightarrow>
               if useEffect_agrees mem (length (listens st))
               then (events st, Inr (results st, listens st))
               else (events st, Inl HookMismatch)))"

text \<open>
  The effect. \<open>uuid n\<close> is the \<open>n\<close>-th value \<^verbatim>\<open>crypto.randomUUID()\<close> produces. The
  result is the calls made and the \<^verbatim>\<open>ids\<close> of the cleanup function, \<open>None\<close> when the
  effect returns without one.
\<close>

fun effect_loop ::
  "(nat \<Rightarrow> handle) \<Rightarrow> nat \<Rightarrow> listen list \<Rightarrow> registry_call list \<Rightarrow> handle list \<Rightarrow>
   registry_call list \<times> handle list option" where
  "effect_loop uuid n [] calls ids = (calls, Some ids)"
| "effect_loop uuid n ((queryKey, query, a, setV) # rest) calls ids =
     (case queryKey of
        None \<Rightarrow> (calls, None)
      | Some k \<Rightarrow>
          effect_loop uuid (Suc n) rest (calls @ [Start (uuid n) k query a setV]) (ids @ [uuid n]))"

definition useQueries_effect ::
  "(nat \<Rightarrow> handle) \<Rightarrow> nat \<Rightarrow> listen list \<Rightarrow> registry_call list \<times> handle list option" where
  "useQueries_effect uuid n ls = effect_loop uuid n ls [] []"

definition useQueries_cleanup :: "handle list \<Rightarrow> registry_call list" where
  "useQueries_cleanup ids = map End ids"

text \<open>\<^verbatim>\<open>results._default\<close>: \<^verbatim>\<open>undefined\<close> when the property is missing.\<close>

definition result_of :: "(string \<rightharpoonup> result) \<Rightarrow> string \<Rightarrow> result" where
  "result_of res key = (case res key of None \<Rightarrow> RUndefined | Some v \<Rightarrow> v)"

text \<open>
  One render of \<^verbatim>\<open>useQuery\<close>; \<open>queryArgs\<close> is \<open>None\<close> when the caller passes no
  argument (\<^verbatim>\<open>queryArgs[0] ?? {}\<close>). The two \<^verbatim>\<open>useMemo\<close> calls are made in every
  render, before and after the others, and only save recomputation; they are left out.
\<close>

definition useQuery ::
  "(fref \<Rightarrow> args \<Rightarrow> qkey option) \<Rightarrow> (qkey \<Rightarrow> result) option \<Rightarrow> result list option \<Rightarrow>
   fref \<Rightarrow> query_args option \<Rightarrow>
   hook_event list \<times> (hook_error + result \<times> listen list)" where
  "useQuery cqk reg mem query queryArgs =
     (let a = (case queryArgs of None \<Rightarrow> Args [] | Some x \<Rightarrow> x);
          params = (case a of Skip \<Rightarrow> [] | Args xs \<Rightarrow> [(''_default'', query, xs)])
      in case useQueries cqk reg mem params of
           (evs, Inl err) \<Rightarrow> (evs, Inl err)
         | (evs, Inr (res, ls)) \<Rightarrow>
             (case result_of res ''_default'' of
                RError msg \<Rightarrow> (evs, Inl (Rethrown msg))
              | v \<Rightarrow> (evs, Inr (v, ls))))"

text \<open>
  A notification \<open>(h, v)\<close> of the registry calls the setter that the effect passed to
  \<^verbatim>\<open>start\<close> together with the handle \<open>h\<close>.
\<close>

fun deliver :: "registry_call list \<Rightarrow> result list option \<Rightarrow> handle \<times> result \<Rightarrow> result list option" where
  "deliver [] mem (h, v) = mem"
| "deliver (Start h' k f a slot # cs) mem (h, v) =
     (if h' = h then set_state mem slot v else deliver cs mem (h, v))"
| "deliver (End h' # cs) mem (h, v) = deliver cs mem (h, v)"

text \<open>Replaying the calls of an effect or a cleanup on the registry.\<close>

fun apply_call :: "registry \<Rightarrow> registry_call \<Rightarrow> registry" where
  "apply_call r (Start h k f a setV) = start r h k f a"
| "apply_call r (End h) = end_listener r h"

definition apply_calls :: "registry \<Rightarrow> registry_call list \<Rightarrow> registry" where
  "apply_calls r cs = fold (\<lambda>c r'. apply_call r' c) cs r"


section \<open>Example inputs\<close>

definition example_world :: world where
  "example_world = \<lparr>files = [''spec.json'' \<mapsto> ''{}''], spawned = [], console = []\<rparr>"

text \<open>A deployment that cannot be reached: the command ends with status 1.\<close>

definition failing_env :: env where
  "failing_env =
     \<lparr>tmpdir = ''/tmp'', now = 42, tmp_writable = True,
      npx = (\<lambda>argv. \<lparr>status = Some 1, stderr = ''no deployment'', stdout = []\<rparr>)\<rparr>"

definition example_uuid :: "nat \<Rightarrow> handle" where
  "example_uuid n = ''uuid-'' @ digits n"

text \<open>A key deriver that has no key for the function \<open>''upload''\<close>.\<close>

definition example_cqk :: "fref \<Rightarrow> args \<Rightarrow> qkey option" where
  "example_cqk q a = (if q = ''upload'' then None else Some q)"

definition example_probe :: "qkey \<Rightarrow> result" where
  "example_probe k = RUndefined"

definition example_queries :: "(string \<times> fref \<times> args) list" where
  "example_queries = [(''m'', ''listMessages'', []), (''u'', ''listUsers'', [])]"

definition example_queries_undefined :: "(string \<times> fref \<times> args) list" where
  "example_queries_undefined =
     [(''m'', ''listMessages'', []), (''x'', ''upload'', []), (''u'', ''listUsers'', [])]"

text \<open>A registry in which one listener holds the key \<open>''listMessages''\<close> open.\<close>

definition live_registry :: registry where
  "live_registry = start empty_registry ''first'' ''listMessages'' ''listMessages'' []"

section \<open>Properties of getFunctionSpec\<close>

lemma tempFile_failing_env: "tempFile failing_env = ''/tmp/function-spec-42.json''"
  by (simp add: tempFile_def failing_env_def digits.simps digit_char_def)

lemma getFunctionSpec_success_removes_temp_file:
  assumes "given_path filePath = None"
    and "getFunctionSpec e prodFlag filePath w = (Returned content, w')"
  shows "files w' (tempFile e) = None"
  using assms
  by (auto simp: getFunctionSpec_def spawn_and_read_def openSync_def spawnSync_def
      readFileSync_def unlink_or_warn_def existsSync_def console_log_def Let_def
      split: sum.splits if_splits option.splits prod.splits)

lemma getFunctionSpec_failure_exits_before_unlink:
  assumes "given_path filePath = None" and "tmp_writable e"
    and "status (npx e ([''npx'', ''convex'', ''function-spec''] @
           (if is_prod prodFlag then [''--prod''] else []))) \<noteq> Some 0"
  shows "fst (getFunctionSpec e prodFlag filePath w) = Exited 1 \<and>
         files (snd (getFunctionSpec e prodFlag filePath w)) (tempFile e) \<noteq> None"
  using assms
  by (simp add: getFunctionSpec_def spawn_and_read_def openSync_def spawnSync_def
      console_log_def Let_def)

text \<open>
  C7. Without a file path, the temporary file that captures the command's output is to be
  deleted before the call finishes, whether reading the manifest succeeded or failed.
  The code deletes it in a \<^verbatim>\<open>finally\<close> block, but its \<^verbatim>\<open>catch\<close> block calls
  \<^verbatim>\<open>process.exit(1)\<close> first: when the command fails, the process ends with the file
  still there.
\<close>

theorem getFunctionSpec_failure_keeps_temp_file:
  "files example_world ''/tmp/function-spec-42.json'' = None \<and>
   tempFile failing_env = ''/tmp/function-spec-42.json'' \<and>
   fst (getFunctionSpec failing_env None None example_world) = Exited 1 \<and>
   files (snd (getFunctionSpec failing_env None None example_world))
     ''/tmp/function-spec-42.json'' = Some []"
proof -
  have "fst (getFunctionSpec failing_env None None example_world) = Exited 1 \<and>
     files (snd (getFunctionSpec failing_env None None example_world)) (tempFile failing_env) =
       Some []"
    by (simp add: getFunctionSpec_def spawn_and_read_def openSync_def spawnSync_def
        console_log_def failing_env_def example_world_def Let_def)
  then show ?thesis
    by (simp add: tempFile_failing_env) (simp add: example_world_def)
qed

text \<open>
  C10. \<^verbatim>\<open>getFunctionSpec\<close> exits with status 1 when both the prod flag and a file path
  are given, and when the given file path does not exist; given a file path alone that
  exists, it returns that file's content and spawns no command (the world is unchanged).
  A file path is given when the parameter is a non-empty string, which is the test the
  code makes.
\<close>

theorem getFunctionSpec_file_path_cases:
  "(p \<noteq> [] \<and> is_prod prodFlag \<longrightarrow>
      fst (getFunctionSpec e prodFlag (Some p) w) = Exited 1 \<and>
      spawned (snd (getFunctionSpec e prodFlag (Some p) w)) = spawned w) \<and>
   (p \<noteq> [] \<and> files w p = None \<longrightarrow>
      fst (getFunctionSpec e prodFlag (Some p) w) = Exited 1 \<and>
      spawned (snd (getFunctionSpec e prodFlag (Some p) w)) = spawned w) \<and>
   (p \<noteq> [] \<and> \<not> is_prod prodFlag \<and> files w p = Some c \<longrightarrow>
      getFunctionSpec e prodFlag (Some p) w = (Returned c, w))"
  by (simp add: getFunctionSpec_def existsSync_def readFileSync_def console_log_def)

theorem getFunctionSpec_file_path_cases_witness:
  "fst (getFunctionSpec failing_env (Some True) (Some ''spec.json'') example_world) = Exited 1 \<and>
   fst (getFunctionSpec failing_env None (Some ''missing.json'') example_world) = Exited 1 \<and>
   getFunctionSpec failing_env None (Some ''spec.json'') example_world = (Returned ''{}'', example_world)"
  using getFunctionSpec_file_path_cases [of "''spec.json''" "Some True" failing_env example_world]
    getFunctionSpec_file_path_cases [of "''missing.json''" None failing_env example_world]
    getFunctionSpec_file_path_cases [of "''spec.json''" None failing_env example_world "''{}''"]
  by (simp add: example_world_def)


section \<open>Properties of the hooks\<close>

lemma loop_listens:
  "useQueries_loop cqk reg mem qs st = Inr st' \<Longrightarrow>
   listens st' =
     listens st @ map (\<lambda>(i, key, q, a). (cqk q a, q, a, i)) (enumerate (length (listens st)) qs)"
proof (induction qs arbitrary: st)
  case Nil
  then show ?case by simp
next
  case (Cons x qs)
  obtain key q a where x: "x = (key, q, a)" by (cases x)
  from Cons.prems obtain st1 where
    st1: "useQueries_loop cqk reg mem qs st1 = Inr st'"
      "listens st1 = listens st @ [(cqk q a, q, a, length (listens st))]"
    by (auto simp: x Let_def split: sum.splits prod.splits)
  from Cons.IH [OF st1(1)] st1(2) show ?case by (simp add: x)
qed

lemma loop_null_complete:
  "(case mem of None \<Rightarrow> True | Some ss \<Rightarrow> length (listens st) + length qs \<le> length ss) \<Longrightarrow>
   \<exists>st'. useQueries_loop cqk None mem qs st = Inr st' \<and>
     events st' =
       events st @ concat (map (\<lambda>(key, q, a). [Derived q a, UsedState RUndefined]) qs)"
proof (induction qs arbitrary: st)
  case Nil
  then show ?case by simp
next
  case (Cons x qs)
  obtain key q a where x: "x = (key, q, a)" by (cases x)
  from Cons.prems obtain v where v: "useState mem (length (listens st)) RUndefined = Inr v"
    by (auto simp: useState_def split: option.splits)
  let ?st = "st\<lparr>results := (results st)(key \<mapsto> v),
       listens := listens st @ [(cqk q a, q, a, length (listens st))],
       qkeys := qkeys st @ [cqk q a],
       events := events st @ [Derived q a, UsedState RUndefined]\<rparr>"
  have step: "useQueries_loop cqk None mem (x # qs) st = useQueries_loop cqk None mem qs ?st"
    by (simp add: x v Let_def)
  have "case mem of None \<Rightarrow> True | Some ss \<Rightarrow> length (listens ?st) + length qs \<le> length ss"
    using Cons.prems by (simp split: option.splits)
  from Cons.IH [OF this] show ?case
    unfolding step by (auto simp: x)
qed

lemma loop_null_short:
  "length (listens st) \<le> length ss \<Longrightarrow> length ss < length (listens st) + length qs \<Longrightarrow>
   useQueries_loop cqk None (Some ss) qs st =
     Inl (HookMismatch,
          events st @
          concat (map (\<lambda>(key, q, a). [Derived q a, UsedState RUndefined])
            (take (length ss - length (listens st)) qs)) @
          (case qs ! (length ss - length (listens st)) of (key, q, a) \<Rightarrow> [Derived q a]))"
proof (induction qs arbitrary: st)
  case Nil
  then show ?case by simp
next
  case (Cons x qs)
  obtain key q a where x: "x = (key, q, a)" by (cases x)
  show ?case
  proof (cases "length (listens st) = length ss")
    case True
    then show ?thesis by (simp add: x useState_def Let_def)
  next
    case False
    with Cons.prems have lt: "length (listens st) < length ss" by simp
    let ?st = "st\<lparr>results := (results st)(key \<mapsto> ss ! length (listens st)),
         listens := listens st @ [(cqk q a, q, a, length (listens st))],
         qkeys := qkeys st @ [cqk q a],
         events := events st @ [Derived q a, UsedState RUndefined]\<rparr>"
    have step: "useQueries_loop cqk None (Some ss) (x # qs) st =
        useQueries_loop cqk None (Some ss) qs ?st"
      using lt by (simp add: x useState_def Let_def)
    have 1: "length (listens ?st) \<le> length ss" using lt by simp
    have 2: "length ss < length (listens ?st) + length qs" using Cons.prems by simp
    obtain m where m: "length ss - length (listens st) = Suc m"
      using lt by (cases "length ss - length (listens st)") auto
    then have m': "length ss - length (listens ?st) = m" by simp
    from Cons.IH [OF 1 2] show ?thesis
      unfolding step m' m by (simp add: x)
  qed
qed

lemma effect_loop_all:
  "\<forall>l\<in>set ls. fst l \<noteq> None \<Longrightarrow>
   effect_loop uuid n ls calls ids =
     (calls @ map (\<lambda>(i, qk, q, a, s). Start (uuid i) (the qk) q a s) (enumerate n ls),
      Some (ids @ map uuid [n..<n + length ls]))"
proof (induction ls arbitrary: n calls ids)
  case Nil
  then show ?case by simp
next
  case (Cons l ls)
  obtain qk q a s where l: "l = (qk, q, a, s)" by (cases l)
  with Cons.prems obtain k where k: "qk = Some k" by auto
  from Cons.prems have "\<forall>l\<in>set ls. fst l \<noteq> None" by simp
  moreover have "[n..<n + length (l # ls)] = n # [Suc n..<Suc n + length ls]"
    by (subst upt_rec) simp
  ultimately show ?case
    using Cons.IH [of "Suc n"] by (simp add: l k del: upt_Suc)
qed

lemma effect_loop_stop:
  "\<forall>l\<in>set pre. fst l \<noteq> None \<Longrightarrow>
   effect_loop uuid n (pre @ (None, q, a, s) # post) calls ids =
     (calls @ map (\<lambda>(i, qk, q, a, s). Start (uuid i) (the qk) q a s) (enumerate n pre), None)"
proof (induction pre arbitrary: n calls ids)
  case Nil
  then show ?case by simp
next
  case (Cons l ls)
  obtain qk q a s where l: "l = (qk, q, a, s)" by (cases l)
  with Cons.prems obtain k where k: "qk = Some k" by auto
  from Cons.prems have "\<forall>l\<in>set ls. fst l \<noteq> None" by simp
  from Cons.IH [OF this] show ?case
    by (simp add: l k)
qed

lemma enumerate_member: "(i, x) \<in> set (enumerate n xs) \<Longrightarrow> x \<in> set xs"
  by (auto simp: in_set_enumerate_eq)

lemma starts_enumerate:
  "map (\<lambda>(i, qk, q, a, s). Start (uuid i) (the qk) q a s)
     (enumerate n (map (\<lambda>(i, key, q, a). (cqk q a, q, a, i)) (enumerate 0 qs))) =
   map (\<lambda>(i, key, q, a). Start (uuid (n + i)) (the (cqk q a)) q a i) (enumerate 0 qs)"
  by (rule nth_equalityI) (auto simp: nth_enumerate_eq split: prod.splits)

lemma useQueries_skip_request:
  "useQueries cqk reg mem [] =
     ([], case reg of
            None \<Rightarrow> Inl ProviderMissing
          | Some prb \<Rightarrow> if useEffect_agrees mem 0 then Inr (Map.empty, []) else Inl HookMismatch)"
  by (simp add: useQueries_def init_render_def split: option.splits)

text \<open>
  C5. The claim: every call of \<^verbatim>\<open>useQuery\<close> with the \<^verbatim>\<open>"skip"\<close> sentinel derives no
  key, never invokes \<^verbatim>\<open>start\<close> or \<^verbatim>\<open>probe\<close>, and returns \<^verbatim>\<open>undefined\<close>. The hook does
  not return in two cases: outside a provider it throws, and in a render that follows a
  render with arguments it makes one \<^verbatim>\<open>useState\<close> call less than before, which React
  refuses.
\<close>

theorem useQuery_skip_outside_provider_throws:
  "useQuery example_cqk None None ''listMessages'' (Some Skip) = ([], Inl ProviderMissing) \<and>
   useQuery example_cqk (Some example_probe) (Some [RValue VNull]) ''listMessages'' (Some Skip) =
     ([], Inl HookMismatch)"
  by (simp add: useQuery_def useQueries_skip_request useEffect_agrees_def)

text \<open>
  C5, amended. A call of \<^verbatim>\<open>useQuery\<close> with the \<^verbatim>\<open>"skip"\<close> sentinel, in any context,
  makes no key derivation and no probe (the render has no events), and whenever it
  returns, the effect it leaves makes no \<^verbatim>\<open>start\<close>. Under a provider, in a first render
  or a render after renders with \<^verbatim>\<open>"skip"\<close>, it returns \<^verbatim>\<open>undefined\<close>.
\<close>

theorem useQuery_skip_inside_provider:
  "fst (useQuery cqk reg mem query (Some Skip)) = [] \<and>
   (snd (useQuery cqk reg mem query (Some Skip)) = Inr (v, ls) \<longrightarrow>
      useQueries_effect uuid n ls = ([], Some []) \<and> useQueries_cleanup [] = []) \<and>
   (mem = None \<or> mem = Some [] \<longrightarrow>
      useQuery cqk (Some prb) mem query (Some Skip) = ([], Inr (RUndefined, [])))"
  by (auto simp: useQuery_def useQueries_skip_request useEffect_agrees_def result_of_def
      useQueries_effect_def useQueries_cleanup_def split: option.splits if_splits)

theorem useQuery_skip_inside_provider_witness:
  "fst (useQuery example_cqk None None ''listMessages'' (Some Skip)) = [] \<and>
   useQueries_effect example_uuid 0 [] = ([], Some []) \<and>
   useQuery example_cqk (Some example_probe) None ''listMessages'' (Some Skip) =
     ([], Inr (RUndefined, [])) \<and>
   useQuery example_cqk (Some example_probe) (Some []) ''listMessages'' (Some Skip) =
     ([], Inr (RUndefined, []))"
proof -
  have r: "snd (useQuery example_cqk (Some example_probe) (Some []) ''listMessages'' (Some Skip)) =
      Inr (RUndefined, [])"
    by (simp add: useQuery_def useQueries_skip_request useEffect_agrees_def result_of_def)
  from useQuery_skip_inside_provider
      [of example_cqk None None "''listMessages''" RUndefined "[]" example_uuid 0 example_probe]
    useQuery_skip_inside_provider
      [of example_cqk "Some example_probe" "Some []" "''listMessages''" RUndefined "[]"
          example_uuid 0 example_probe] r
  show ?thesis by simp
qed

text \<open>
  C6. Failures arrive as values, through the state that the notify callback \<^verbatim>\<open>setV\<close>
  writes or through the value \<^verbatim>\<open>probe\<close> returns on the first render. Whatever value
  \<open>v\<close> the render has for the query (the probed value in a first render, the state \<open>v\<close>
  in a later one), \<^verbatim>\<open>useQuery\<close> throws exactly when \<open>v\<close> is an \<^verbatim>\<open>Error\<close>, and throws
  that error; otherwise it returns \<open>v\<close> unchanged. This holds with an argument object
  and with no argument at all. A render after one that made another number of
  \<^verbatim>\<open>useState\<close> calls delivers no result.
\<close>

theorem useQuery_rethrows_error_results:
  "snd (useQuery cqk (Some prb) None query (Some (Args a))) =
     (let v = (case cqk query a of None \<Rightarrow> RUndefined | Some k \<Rightarrow> prb k)
      in case v of
           RError msg \<Rightarrow> Inl (Rethrown msg)
         | _ \<Rightarrow> Inr (v, [(cqk query a, query, a, 0)])) \<and>
   snd (useQuery cqk (Some prb) (Some [v]) query (Some (Args a))) =
     (case v of
        RError msg \<Rightarrow> Inl (Rethrown msg)
      | _ \<Rightarrow> Inr (v, [(cqk query a, query, a, 0)])) \<and>
   snd (useQuery cqk (Some prb) None query None) =
     (let v = (case cqk query [] of None \<Rightarrow> RUndefined | Some k \<Rightarrow> prb k)
      in case v of
           RError msg \<Rightarrow> Inl (Rethrown msg)
         | _ \<Rightarrow> Inr (v, [(cqk query [], query, [], 0)])) \<and>
   snd (useQuery cqk (Some prb) (Some [v]) query None) =
     (case v of
        RError msg \<Rightarrow> Inl (Rethrown msg)
      | _ \<Rightarrow> Inr (v, [(cqk query [], query, [], 0)])) \<and>
   (length ss \<noteq> 1 \<longrightarrow>
      snd (useQuery cqk (Some prb) (Some ss) query (Some (Args a))) = Inl HookMismatch \<and>
      snd (useQuery cqk (Some prb) (Some ss) query None) = Inl HookMismatch)"
  by (auto simp: useQuery_def useQueries_def init_render_def result_of_def Let_def
      useState_def useEffect_agrees_def split: option.splits result.splits)

theorem useQuery_rethrows_error_results_witness:
  "snd (useQuery example_cqk (Some example_probe) (Some [RError ''boom'']) ''f'' (Some (Args []))) =
     Inl (Rethrown ''boom'') \<and>
   snd (useQuery example_cqk (Some (\<lambda>k. RError ''down'')) None ''f'' None) =
     Inl (Rethrown ''down'') \<and>
   snd (useQuery example_cqk (Some example_probe) (Some [RValue (VNum 3)]) ''f'' (Some (Args []))) =
     Inr (RValue (VNum 3), [(Some ''f'', ''f'', [], 0)]) \<and>
   snd (useQuery example_cqk (Some example_probe) (Some []) ''f'' (Some (Args []))) =
     Inl HookMismatch"
  using useQuery_rethrows_error_results
      [of example_cqk example_probe "''f''" "[]" "RError ''boom''" "[]"]
    useQuery_rethrows_error_results
      [of example_cqk "\<lambda>k. RError ''down''" "''f''" "[]" "RUndefined" "[]"]
    useQuery_rethrows_error_results
      [of example_cqk example_probe "''f''" "[]" "RValue (VNum 3)" "[]"]
  by (simp add: example_cqk_def)

text \<open>
  C8. Let \<open>ls\<close> be the \<^verbatim>\<open>listens\<close> of a render of \<^verbatim>\<open>useQueries\<close> under a provider.
  If every query has a key, the effect calls \<^verbatim>\<open>start\<close> once per query, in order, the
  \<open>i\<close>-th with the \<open>i\<close>-th UUID generated in this run, and the cleanup calls \<^verbatim>\<open>end\<close>
  once for each of these handles. If some query has no key, the effect has started the
  queries before the first such query only, and returns no cleanup: the handles it
  started are never passed to \<^verbatim>\<open>end\<close>.
\<close>

theorem useQueries_effect_starts_and_cleanup:
  assumes "snd (useQueries cqk (Some prb) mem queries) = Inr (res, ls)"
  shows "((\<forall>(key, q, a)\<in>set queries. cqk q a \<noteq> None) \<longrightarrow>
           useQueries_effect uuid n ls =
             (map (\<lambda>(i, key, q, a). Start (uuid (n + i)) (the (cqk q a)) q a i) (enumerate 0 queries),
              Some (map uuid [n..<n + length queries])) \<and>
           useQueries_cleanup (map uuid [n..<n + length queries]) =
             map (\<lambda>i. End (uuid i)) [n..<n + length queries]) \<and>
         (queries = pre @ (key, q, a) # post \<and>
          (\<forall>(key', q', a')\<in>set pre. cqk q' a' \<noteq> None) \<and> cqk q a = None \<longrightarrow>
           useQueries_effect uuid n ls =
             (map (\<lambda>(i, key, q, a). Start (uuid (n + i)) (the (cqk q a)) q a i) (enumerate 0 pre),
              None))"
proof (intro conjI impI)
  let ?g = "\<lambda>(i, key, q, a). (cqk q a, q, a, i)"
  from assms obtain st where "useQueries_loop cqk (Some prb) mem queries init_render = Inr st"
    and "ls = listens st"
    by (auto simp: useQueries_def split: sum.splits if_splits)
  with loop_listens [of cqk "Some prb" mem queries init_render st]
  have ls: "ls = map ?g (enumerate 0 queries)"
    by (simp add: init_render_def)
  {
    assume all: "\<forall>(key, q, a)\<in>set queries. cqk q a \<noteq> None"
    have "\<forall>l\<in>set ls. fst l \<noteq> None"
      unfolding ls using all by (auto dest!: enumerate_member)
    from effect_loop_all [OF this, of uuid n "[]" "[]"]
    show "useQueries_effect uuid n ls =
             (map (\<lambda>(i, key, q, a). Start (uuid (n + i)) (the (cqk q a)) q a i) (enumerate 0 queries),
              Some (map uuid [n..<n + length queries]))"
      by (simp add: useQueries_effect_def ls starts_enumerate)
  }
  show "useQueries_cleanup (map uuid [n..<n + length queries]) =
          map (\<lambda>i. End (uuid i)) [n..<n + length queries]"
    by (simp add: useQueries_cleanup_def)
  {
    assume h: "queries = pre @ (key, q, a) # post \<and>
         (\<forall>(key', q', a')\<in>set pre. cqk q' a' \<noteq> None) \<and> cqk q a = None"
    let ?pre = "map ?g (enumerate 0 pre)"
    have split: "ls = ?pre @ (None, q, a, length pre) # map ?g (enumerate (Suc (length pre)) post)"
      using h by (simp add: ls enumerate_append_eq)
    have "\<forall>l\<in>set ?pre. fst l \<noteq> None"
      using h by (auto dest!: enumerate_member)
    from effect_loop_stop [OF this, of uuid n q a "length pre" _ "[]" "[]"]
    show "useQueries_effect uuid n ls =
             (map (\<lambda>(i, key, q, a). Start (uuid (n + i)) (the (cqk q a)) q a i) (enumerate 0 pre),
              None)"
      by (simp add: useQueries_effect_def split starts_enumerate)
  }
qed

lemma example_uuid_values: "example_uuid 7 = ''uuid-7''" "example_uuid 8 = ''uuid-8''"
  by (simp_all add: example_uuid_def digits.simps digit_char_def)

theorem useQueries_effect_starts_and_cleanup_witness:
  "useQueries_effect example_uuid 7
     [(Some ''listMessages'', ''listMessages'', [], 0), (Some ''listUsers'', ''listUsers'', [], 1)] =
     ([Start ''uuid-7'' ''listMessages'' ''listMessages'' [] 0,
       Start ''uuid-8'' ''listUsers'' ''listUsers'' [] 1],
      Some [''uuid-7'', ''uuid-8'']) \<and>
   useQueries_cleanup [''uuid-7'', ''uuid-8''] = [End ''uuid-7'', End ''uuid-8''] \<and>
   useQueries_effect example_uuid 7
     [(Some ''listMessages'', ''listMessages'', [], 0), (None, ''upload'', [], 1),
      (Some ''listUsers'', ''listUsers'', [], 2)] =
     ([Start ''uuid-7'' ''listMessages'' ''listMessages'' [] 0], None)"
proof -
  have r1: "snd (useQueries example_cqk (Some example_probe) None example_queries) =
      Inr ([''m'' \<mapsto> RUndefined, ''u'' \<mapsto> RUndefined],
           [(Some ''listMessages'', ''listMessages'', [], 0), (Some ''listUsers'', ''listUsers'', [], 1)])"
    by (simp add: useQueries_def init_render_def example_queries_def example_cqk_def
        example_probe_def useState_def useEffect_agrees_def Let_def)
  have r2: "snd (useQueries example_cqk (Some example_probe) None example_queries_undefined) =
      Inr ([''m'' \<mapsto> RUndefined, ''x'' \<mapsto> RUndefined, ''u'' \<mapsto> RUndefined],
           [(Some ''listMessages'', ''listMessages'', [], 0), (None, ''upload'', [], 1),
            (Some ''listUsers'', ''listUsers'', [], 2)])"
    by (simp add: useQueries_def init_render_def example_queries_undefined_def example_cqk_def
        example_probe_def useState_def useEffect_agrees_def Let_def)
  have all: "\<forall>(key, q, a)\<in>set example_queries. example_cqk q a \<noteq> None"
    by (simp add: example_queries_def example_cqk_def)
  have pre: "example_queries_undefined = [(''m'', ''listMessages'', [])] @ (''x'', ''upload'', []) # [(''u'', ''listUsers'', [])] \<and>
     (\<forall>(key', q', a')\<in>set [(''m'', ''listMessages'', [])]. example_cqk q' a' \<noteq> None) \<and> example_cqk ''upload'' [] = None"
    by (simp add: example_queries_undefined_def example_cqk_def)
  from useQueries_effect_starts_and_cleanup [OF r1, where uuid = example_uuid and n = 7] all
    useQueries_effect_starts_and_cleanup [OF r2, where uuid = example_uuid and n = 7
      and pre = "[(''m'', ''listMessages'', [])]" and key = "''x''" and q = "''upload''"
      and a = "[]" and post = "[(''u'', ''listUsers'', [])]"] pre
  show ?thesis
    by (simp add: example_queries_def example_cqk_def example_uuid_values enumerate_eq_zip upt_rec)
qed

text \<open>
  C9. Outside a provider (the registry is null) a render of \<^verbatim>\<open>useQueries\<close> derives a key
  and initialises a state with \<^verbatim>\<open>undefined\<close> for each query, in order, makes no probe,
  and then throws; no effect is registered, so no \<^verbatim>\<open>start\<close> is made. This is so in a
  first render and in any later render with as many state hooks as queries or more.
  With fewer state hooks than queries, the render throws earlier, at the first
  \<^verbatim>\<open>useState\<close> call without a hook, again with no probe and no effect.
\<close>

theorem useQueries_without_provider_throws:
  "useQueries cqk None None queries =
     (concat (map (\<lambda>(key, q, a). [Derived q a, UsedState RUndefined]) queries),
      Inl ProviderMissing) \<and>
   (length queries \<le> length ss \<longrightarrow>
      useQueries cqk None (Some ss) queries =
        (concat (map (\<lambda>(key, q, a). [Derived q a, UsedState RUndefined]) queries),
         Inl ProviderMissing)) \<and>
   (length ss < length queries \<longrightarrow>
      useQueries cqk None (Some ss) queries =
        (concat (map (\<lambda>(key, q, a). [Derived q a, UsedState RUndefined]) (take (length ss) queries)) @
         (case queries ! length ss of (key, q, a) \<Rightarrow> [Derived q a]),
         Inl HookMismatch))"
proof (intro conjI impI)
  from loop_null_complete [where mem = None and st = init_render and qs = queries and cqk = cqk]
  show "useQueries cqk None None queries =
     (concat (map (\<lambda>(key, q, a). [Derived q a, UsedState RUndefined]) queries),
      Inl ProviderMissing)"
    by (auto simp: useQueries_def init_render_def)
next
  assume "length queries \<le> length ss"
  with loop_null_complete [where mem = "Some ss" and st = init_render and qs = queries and cqk = cqk]
  show "useQueries cqk None (Some ss) queries =
        (concat (map (\<lambda>(key, q, a). [Derived q a, UsedState RUndefined]) queries),
         Inl ProviderMissing)"
    by (auto simp: useQueries_def init_render_def)
next
  assume "length ss < length queries"
  with loop_null_short [where st = init_render and ss = ss and qs = queries and cqk = cqk]
  show "useQueries cqk None (Some ss) queries =
        (concat (map (\<lambda>(key, q, a). [Derived q a, UsedState RUndefined]) (take (length ss) queries)) @
         (case queries ! length ss of (key, q, a) \<Rightarrow> [Derived q a]),
         Inl HookMismatch)"
    by (simp add: useQueries_def init_render_def)
qed

theorem useQueries_without_provider_throws_witness:
  "useQueries example_cqk None None example_queries =
     ([Derived ''listMessages'' [], UsedState RUndefined,
       Derived ''listUsers'' [], UsedState RUndefined],
      Inl ProviderMissing) \<and>
   useQueries example_cqk None (Some [RUndefined]) example_queries =
     ([Derived ''listMessages'' [], UsedState RUndefined, Derived ''listUsers'' []],
      Inl HookMismatch)"
  using useQueries_without_provider_throws [of example_cqk example_queries "[RUndefined]"]
  by (simp add: example_queries_def)

section \<open>Properties of the registry\<close>

lemma start_existing:
  "attached r h = None \<Longrightarrow> entries r k = Some e \<Longrightarrow>
   start r h k f a =
     r\<lparr>entries := (entries r)(k \<mapsto> e\<lparr>listeners := listeners e @ [h]\<rparr>),
       attached := (attached r)(h \<mapsto> k),
       notified := notified r @ (if cached e = RUndefined then [] else [(h, cached e)])\<rparr>"
  by (simp add: start_def open_entry_def attach_def)

lemma start_new:
  "attached r h = None \<Longrightarrow> entries r k = None \<Longrightarrow>
   start r h k f a =
     r\<lparr>entries := (entries r)(k \<mapsto> \<lparr>sub = next_sub r, cached = RUndefined, listeners = [h]\<rparr>),
       next_sub := Suc (next_sub r),
       transport := transport r @ [TOpen (next_sub r) f a],
       attached := (attached r)(h \<mapsto> k)\<rparr>"
  by (simp add: start_def open_entry_def attach_def)

lemma start_all_existing:
  "distinct hs \<Longrightarrow> \<forall>h\<in>set hs. attached r h = None \<Longrightarrow> entries r k = Some e \<Longrightarrow>
   entries (start_all r hs k f a) k = Some (e\<lparr>listeners := listeners e @ hs\<rparr>) \<and>
   transport (start_all r hs k f a) = transport r \<and>
   (\<forall>h\<in>set hs. attached (start_all r hs k f a) h = Some k) \<and>
   (\<forall>h. h \<notin> set hs \<longrightarrow> attached (start_all r hs k f a) h = attached r h)"
proof (induction hs arbitrary: r e)
  case Nil
  then show ?case by (simp add: start_all_def)
next
  case (Cons x xs)
  let ?r = "start r x k f a"
  let ?e = "e\<lparr>listeners := listeners e @ [x]\<rparr>"
  from Cons.prems have eq: "?r = r\<lparr>entries := (entries r)(k \<mapsto> ?e), attached := (attached r)(x \<mapsto> k),
      notified := notified r @ (if cached e = RUndefined then [] else [(x, cached e)])\<rparr>"
    by (simp add: start_existing)
  have 1: "distinct xs" using Cons.prems by simp
  have 2: "\<forall>h\<in>set xs. attached ?r h = None" using Cons.prems by (auto simp: eq)
  have 3: "entries ?r k = Some ?e" by (simp add: eq)
  have unfold: "start_all r (x # xs) k f a = start_all ?r xs k f a"
    by (simp add: start_all_def)
  from Cons.IH [OF 1 2 3] Cons.prems show ?case
    unfolding unfold by (auto simp: eq)
qed

lemma start_all_new:
  assumes "distinct hs" "\<forall>h\<in>set hs. attached r h = None" "entries r k = None" "hs \<noteq> []"
  shows "entries (start_all r hs k f a) k =
           Some \<lparr>sub = next_sub r, cached = RUndefined, listeners = hs\<rparr> \<and>
         transport (start_all r hs k f a) = transport r @ [TOpen (next_sub r) f a] \<and>
         (\<forall>h\<in>set hs. attached (start_all r hs k f a) h = Some k)"
proof -
  from assms obtain x xs where hs: "hs = x # xs" by (cases hs) auto
  let ?r = "start r x k f a"
  let ?e = "\<lparr>sub = next_sub r, cached = RUndefined, listeners = [x]\<rparr>"
  from assms have eq: "?r = r\<lparr>entries := (entries r)(k \<mapsto> ?e),
       next_sub := Suc (next_sub r),
       transport := transport r @ [TOpen (next_sub r) f a],
       attached := (attached r)(x \<mapsto> k)\<rparr>"
    by (simp add: start_new hs)
  have 1: "distinct xs" using assms by (simp add: hs)
  have 2: "\<forall>h\<in>set xs. attached ?r h = None" using assms by (auto simp: eq hs)
  have 3: "entries ?r k = Some ?e" by (simp add: eq)
  have unfold: "start_all r hs k f a = start_all ?r xs k f a"
    by (simp add: start_all_def hs)
  from start_all_existing [OF 1 2 3, of f a] assms show ?thesis
    unfolding unfold by (auto simp: eq hs)
qed

lemma end_listener_keep:
  "attached r h = Some k \<Longrightarrow> entries r k = Some e \<Longrightarrow> removeAll h (listeners e) \<noteq> [] \<Longrightarrow>
   end_listener r h =
     r\<lparr>entries := (entries r)(k \<mapsto> e\<lparr>listeners := removeAll h (listeners e)\<rparr>),
       attached := (attached r)(h := None)\<rparr>"
  by (simp add: end_listener_def Let_def)

lemma end_listener_last:
  "attached r h = Some k \<Longrightarrow> entries r k = Some e \<Longrightarrow> removeAll h (listeners e) = [] \<Longrightarrow>
   end_listener r h =
     r\<lparr>entries := (entries r)(k := None),
       attached := (attached r)(h := None),
       transport := transport r @ [TClose (sub e)]\<rparr>"
  by (simp add: end_listener_def Let_def)

lemma end_all_keep:
  "distinct es \<Longrightarrow> set es \<subset> set (listeners e) \<Longrightarrow> entries r k = Some e \<Longrightarrow>
   \<forall>h\<in>set (listeners e). attached r h = Some k \<Longrightarrow>
   entries (end_all r es) k = Some (e\<lparr>listeners := filter (\<lambda>h. h \<notin> set es) (listeners e)\<rparr>) \<and>
   transport (end_all r es) = transport r \<and>
   (\<forall>h\<in>set (listeners e) - set es. attached (end_all r es) h = Some k)"
proof (induction es arbitrary: r e)
  case Nil
  then show ?case by (simp add: end_all_def)
next
  case (Cons x xs)
  let ?ls = "removeAll x (listeners e)"
  let ?e = "e\<lparr>listeners := ?ls\<rparr>"
  let ?r = "end_listener r x"
  from Cons.prems have x: "x \<in> set (listeners e)" "x \<notin> set xs" by auto
  from Cons.prems have sub: "set xs \<subset> set ?ls" by auto
  then have "set ?ls \<noteq> {}" by (metis not_psubset_empty)
  then have ne: "?ls \<noteq> []" by (simp del: set_removeAll)
  from Cons.prems x have ax: "attached r x = Some k" by simp
  have eq: "?r = r\<lparr>entries := (entries r)(k \<mapsto> ?e), attached := (attached r)(x := None)\<rparr>"
    using end_listener_keep [OF ax Cons.prems(3) ne] .
  have 1: "distinct xs" using Cons.prems by simp
  have 2: "set xs \<subset> set (listeners ?e)" using sub by simp
  have 3: "entries ?r k = Some ?e" by (simp add: eq)
  have 4: "\<forall>h\<in>set (listeners ?e). attached ?r h = Some k"
    using Cons.prems(4) by (auto simp: eq)
  have unfold: "end_all r (x # xs) = end_all ?r xs" by (simp add: end_all_def)
  have flt: "filter (\<lambda>h. h \<notin> set xs) ?ls = filter (\<lambda>h. h \<notin> set (x # xs)) (listeners e)"
    by (auto simp: removeAll_filter_not_eq intro: filter_cong)
  from Cons.IH [OF 1 2 3 4] show ?case
    unfolding unfold by (auto simp: eq flt)
qed


lemma remaining_single:
  assumes "distinct hs" "distinct es" "set es \<subseteq> set hs" "length hs = Suc (length es)"
    "h \<in> set hs" "h \<notin> set es"
  shows "filter (\<lambda>x. x \<notin> set es) hs = [h]"
proof -
  let ?rest = "filter (\<lambda>x. x \<notin> set es) hs"
  have d: "distinct ?rest" using assms(1) by simp
  have "set ?rest = set hs - set es" by auto
  moreover have "card (set hs - set es) = 1"
    using assms by (simp add: card_Diff_subset distinct_card)
  ultimately have "card (set ?rest) = 1" by simp
  moreover from d have "length ?rest = card (set ?rest)" by (rule distinct_card [symmetric])
  ultimately have "length ?rest = 1" by simp
  then obtain y where y: "?rest = [y]" by (cases ?rest) auto
  have "h \<in> set ?rest" using assms by simp
  with y show ?thesis by simp
qed

text \<open>
  C1. Start from a registry with no entry for the key \<open>k\<close>. After \<open>start\<close> calls
  with the distinct handles \<open>hs\<close> for \<open>k\<close>, followed by \<open>end\<close> calls with all of them
  but one (\<open>es\<close>, in any order), the entry is still there and the transport has seen one
  \<open>open\<close> and no \<open>close\<close> since; the \<open>end\<close> call with the last handle \<open>h\<close> removes
  the entry, and the transport has then seen exactly one \<open>close\<close>, of that subscription.
\<close>

theorem refcount_open_until_last_end:
  assumes "entries r k = None" and "distinct hs" and "\<forall>h\<in>set hs. attached r h = None"
    and "distinct es" and "set es \<subseteq> set hs" and "length hs = Suc (length es)"
    and "h \<in> set hs" and "h \<notin> set es"
  shows "entries (end_all (start_all r hs k f a) es) k \<noteq> None \<and>
         transport (end_all (start_all r hs k f a) es) = transport r @ [TOpen (next_sub r) f a] \<and>
         entries (end_listener (end_all (start_all r hs k f a) es) h) k = None \<and>
         transport (end_listener (end_all (start_all r hs k f a) es) h) =
           transport r @ [TOpen (next_sub r) f a, TClose (next_sub r)]"
proof -
  let ?r1 = "start_all r hs k f a"
  let ?e1 = "\<lparr>sub = next_sub r, cached = RUndefined, listeners = hs\<rparr>"
  let ?r2 = "end_all ?r1 es"
  from assms(7) have ne: "hs \<noteq> []" by auto
  from start_all_new [OF assms(2) assms(3) assms(1) ne, of f a]
  have e1: "entries ?r1 k = Some ?e1"
    and t1: "transport ?r1 = transport r @ [TOpen (next_sub r) f a]"
    and a1: "\<forall>h\<in>set hs. attached ?r1 h = Some k"
    by auto
  have strict: "set es \<subset> set (listeners ?e1)" using assms(5,7,8) by auto
  have a1': "\<forall>h\<in>set (listeners ?e1). attached ?r1 h = Some k" using a1 by simp
  have rest: "filter (\<lambda>x. x \<notin> set es) hs = [h]"
    using remaining_single [OF assms(2) assms(4) assms(5) assms(6) assms(7) assms(8)] .
  from end_all_keep [OF assms(4) strict e1 a1']
  have e2: "entries ?r2 k = Some (?e1\<lparr>listeners := [h]\<rparr>)"
    and t2: "transport ?r2 = transport ?r1"
    and a2: "attached ?r2 h = Some k"
    using assms(7,8) by (auto simp: rest)
  have last: "removeAll h (listeners (?e1\<lparr>listeners := [h]\<rparr>)) = []" by simp
  show ?thesis
    using end_listener_last [OF a2 e2 last] e2 t2 t1 by simp
qed

theorem refcount_open_until_last_end_witness:
  "entries (end_all (start_all empty_registry [''a'', ''b'', ''c''] ''k'' ''f'' []) [''c'', ''a'']) ''k'' \<noteq> None \<and>
   transport (end_all (start_all empty_registry [''a'', ''b'', ''c''] ''k'' ''f'' []) [''c'', ''a'']) =
     [TOpen 0 ''f'' []] \<and>
   entries (end_listener (end_all (start_all empty_registry [''a'', ''b'', ''c''] ''k'' ''f'' [])
     [''c'', ''a'']) ''b'') ''k'' = None \<and>
   transport (end_listener (end_all (start_all empty_registry [''a'', ''b'', ''c''] ''k'' ''f'' [])
     [''c'', ''a'']) ''b'') = [TOpen 0 ''f'' [], TClose 0]"
  using refcount_open_until_last_end
    [of empty_registry "''k''" "[''a'', ''b'', ''c'']" "[''c'', ''a'']" "''b''" "''f''" "[]"]
  by (simp add: empty_registry_def)

lemma push_live:
  "entries r k = Some e \<Longrightarrow>
   push r k v = r\<lparr>entries := (entries r)(k \<mapsto> e\<lparr>cached := v\<rparr>),
                  notified := notified r @ map (\<lambda>h. (h, v)) (listeners e)\<rparr>"
  by (simp add: push_def)

text \<open>
  C4. Let the key \<open>k\<close> have a live entry and let the transport push a value \<open>v\<close>.
  A component that mounts afterwards with a query of key \<open>k\<close> gets \<open>v\<close> from \<open>probe\<close> in
  its first render, so its result is \<open>v\<close> before any \<open>start\<close>. Its effect makes one
  \<open>start\<close> call, which leaves the transport as it was (no second \<open>open\<close>) and the cached
  value in place, and which notifies the new listener of \<open>v\<close>. A component that had
  rendered before the push, and holds some other state \<open>w\<close> when its effect runs after
  the push, receives that notification through its setter and shows \<open>v\<close> in its next
  render, whatever \<open>probe\<close> then returns. The next push reaches the new listener too.
\<close>

theorem late_attach_observes_cached_value:
  assumes "entries r k = Some e" and "attached r (uuid n) = None" and "cqk q a = Some k"
    and "v \<noteq> RUndefined"
  shows "probe (push r k v) k = v \<and>
         useQueries cqk (Some (probe (push r k v))) None [(name, q, a)] =
           ([Derived q a, Probed k, UsedState v], Inr ([name \<mapsto> v], [(Some k, q, a, 0)])) \<and>
         useQueries_effect uuid n [(Some k, q, a, 0)] = ([Start (uuid n) k q a 0], Some [uuid n]) \<and>
         transport (apply_calls (push r k v) [Start (uuid n) k q a 0]) = transport r \<and>
         probe (apply_calls (push r k v) [Start (uuid n) k q a 0]) k = v \<and>
         notified (apply_calls (push r k v) [Start (uuid n) k q a 0]) =
           notified (push r k v) @ [(uuid n, v)] \<and>
         snd (useQueries cqk (Some prb)
                (deliver [Start (uuid n) k q a 0] (Some [w]) (uuid n, v)) [(name, q, a)]) =
           Inr ([name \<mapsto> v], [(Some k, q, a, 0)]) \<and>
         notified (push (apply_calls (push r k v) [Start (uuid n) k q a 0]) k v') =
           notified (apply_calls (push r k v) [Start (uuid n) k q a 0]) @
           map (\<lambda>h'. (h', v')) (listeners e @ [uuid n])"
proof -
  define h where "h = uuid n"
  define e1 where "e1 = e\<lparr>cached := v\<rparr>"
  define r1 where "r1 = push r k v"
  define e2 where "e2 = e1\<lparr>listeners := listeners e1 @ [h]\<rparr>"
  define r2 where "r2 = start r1 h k q a"
  have p: "r1 = r\<lparr>entries := (entries r)(k \<mapsto> e1),
                  notified := notified r @ map (\<lambda>h. (h, v)) (listeners e)\<rparr>"
    unfolding r1_def e1_def using assms(1) by (rule push_live)
  have e: "entries r1 k = Some e1" and at: "attached r1 h = None"
    and t1: "transport r1 = transport r"
    using assms(2) by (simp_all add: p h_def)
  have c1: "cached e1 = v" by (simp add: e1_def)
  have pr: "probe r1 k = v" by (simp add: probe_def e c1)
  have s: "r2 = r1\<lparr>entries := (entries r1)(k \<mapsto> e2), attached := (attached r1)(h \<mapsto> k),
      notified := notified r1 @ [(h, v)]\<rparr>"
    unfolding r2_def e2_def using start_existing [OF at e, of q a] assms(4) by (simp add: c1)
  have e2: "entries r2 k = Some e2" and t2: "transport r2 = transport r1"
    and n2: "notified r2 = notified r1 @ [(h, v)]"
    by (simp_all add: s)
  have render: "useQueries cqk (Some (probe r1)) None [(name, q, a)] =
           ([Derived q a, Probed k, UsedState v], Inr ([name \<mapsto> v], [(Some k, q, a, 0)]))"
    by (simp add: useQueries_def init_render_def useState_def useEffect_agrees_def assms(3) pr Let_def)
  have eff: "useQueries_effect uuid n [(Some k, q, a, 0)] = ([Start h k q a 0], Some [h])"
    by (simp add: useQueries_effect_def h_def)
  have ap: "apply_calls r1 [Start h k q a 0] = r2"
    by (simp add: apply_calls_def r2_def)
  have dl: "deliver [Start h k q a 0] (Some [w]) (h, v) = Some [v]"
    by (simp add: set_state_def)
  have rerender: "snd (useQueries cqk (Some prb) (Some [v]) [(name, q, a)]) =
           Inr ([name \<mapsto> v], [(Some k, q, a, 0)])"
    by (simp add: useQueries_def init_render_def useState_def useEffect_agrees_def assms(3) Let_def)
  have p2: "probe r2 k = v" by (simp add: probe_def e2 e2_def e1_def)
  have n3: "notified (push r2 k v') = notified r2 @ map (\<lambda>h'. (h', v')) (listeners e @ [h])"
    by (simp add: push_live [OF e2]) (simp add: e2_def e1_def)
  show ?thesis
    using pr render eff t1 t2 p2 n2 n3 rerender
    unfolding ap [symmetric] dl [symmetric] unfolding r1_def h_def by simp
qed

lemma live_registry_eq:
  "live_registry =
     \<lparr>entries = [''listMessages'' \<mapsto> \<lparr>sub = 0, cached = RUndefined, listeners = [''first'']\<rparr>],
      attached = [''first'' \<mapsto> ''listMessages''], next_sub = 1,
      transport = [TOpen 0 ''listMessages'' []], notified = []\<rparr>"
  by (simp add: live_registry_def start_def open_entry_def attach_def empty_registry_def)

theorem late_attach_observes_cached_value_witness:
  "probe (push live_registry ''listMessages'' (RValue (VStr ''hello''))) ''listMessages'' =
     RValue (VStr ''hello'') \<and>
   useQueries example_cqk
     (Some (probe (push live_registry ''listMessages'' (RValue (VStr ''hello''))))) None
     [(''m'', ''listMessages'', [])] =
     ([Derived ''listMessages'' [], Probed ''listMessages'', UsedState (RValue (VStr ''hello''))],
      Inr ([''m'' \<mapsto> RValue (VStr ''hello'')], [(Some ''listMessages'', ''listMessages'', [], 0)])) \<and>
   transport (apply_calls (push live_registry ''listMessages'' (RValue (VStr ''hello'')))
     [Start ''uuid-7'' ''listMessages'' ''listMessages'' [] 0]) = [TOpen 0 ''listMessages'' []] \<and>
   notified (apply_calls (push live_registry ''listMessages'' (RValue (VStr ''hello'')))
     [Start ''uuid-7'' ''listMessages'' ''listMessages'' [] 0]) =
     [(''first'', RValue (VStr ''hello'')), (''uuid-7'', RValue (VStr ''hello''))] \<and>
   snd (useQueries example_cqk (Some example_probe)
     (deliver [Start ''uuid-7'' ''listMessages'' ''listMessages'' [] 0] (Some [RUndefined])
        (''uuid-7'', RValue (VStr ''hello''))) [(''m'', ''listMessages'', [])]) =
     Inr ([''m'' \<mapsto> RValue (VStr ''hello'')], [(Some ''listMessages'', ''listMessages'', [], 0)])"
proof -
  have u: "example_uuid 7 = ''uuid-7''"
    by (simp add: example_uuid_def digits.simps digit_char_def)
  have 1: "entries live_registry ''listMessages'' =
      Some \<lparr>sub = 0, cached = RUndefined, listeners = [''first'']\<rparr>"
    by (simp add: live_registry_eq)
  have 2: "attached live_registry (example_uuid 7) = None"
    by (simp add: live_registry_eq u)
  have 3: "example_cqk ''listMessages'' [] = Some ''listMessages''"
    by (simp add: example_cqk_def)
  have 4: "RValue (VStr ''hello'') \<noteq> RUndefined" by simp
  from late_attach_observes_cached_value
    [where uuid = example_uuid and n = 7 and cqk = example_cqk and q = "''listMessages''"
       and a = "[]" and v = "RValue (VStr ''hello'')" and name = "''m''"
       and prb = example_probe and w = RUndefined, OF 1 2 3 4]
  show ?thesis by (simp add: u live_registry_eq push_def)
qed

section \<open>Properties of the key deriver\<close>

lemma below_ten: "d < (10::nat) \<Longrightarrow> d \<in> {0, 1, 2, 3, 4, 5, 6, 7, 8, 9}"
  by auto

lemma digit_char_digit: "d < 10 \<Longrightarrow> is_digit (digit_char d)"
  by (drule below_ten) (auto simp: is_digit_def digit_char_def)

lemma digit_val_char: "d < 10 \<Longrightarrow> digit_val (digit_char d) = d"
  by (drule below_ten) (auto simp: digit_val_def digit_char_def)

lemma digits_all: "\<forall>c\<in>set (digits n). is_digit c"
  by (induction n rule: digits.induct) (subst digits.simps, auto simp: digit_char_digit)

lemma digits_nonempty: "digits n \<noteq> []"
  by (subst digits.simps) simp

lemma undigits_snoc: "undigits (cs @ [c]) = 10 * undigits cs + digit_val c"
  by (simp add: undigits_def)

lemma undigits_digits: "undigits (digits n) = n"
proof (induction n rule: digits.induct)
  case (1 n)
  show ?case
  proof (cases "n < 10")
    case True
    then show ?thesis
      by (subst digits.simps) (simp add: undigits_def digit_val_char)
  next
    case False
    with 1 have "undigits (digits (n div 10)) = n div 10" by simp
    with False show ?thesis
      by (subst digits.simps) (simp add: undigits_snoc digit_val_char)
  qed
qed

lemma digits_inj: "digits n = digits m \<Longrightarrow> n = m"
  by (metis undigits_digits)

lemma digit_run_unique:
  "\<forall>c\<in>set xs. is_digit c \<Longrightarrow> \<forall>c\<in>set ys. is_digit c \<Longrightarrow> ok_rest r \<Longrightarrow> ok_rest r' \<Longrightarrow>
   xs @ r = ys @ r' \<Longrightarrow> xs = ys \<and> r = r'"
proof (induction xs arbitrary: ys)
  case Nil
  then show ?case by (cases ys) auto
next
  case (Cons x xs)
  then show ?case by (cases ys) auto
qed

lemma escape_unique:
  "escape s @ CHR 0x22 # r = escape t @ CHR 0x22 # r' \<Longrightarrow> s = t \<and> r = r'"
proof (induction s arbitrary: t)
  case Nil
  then show ?case by (cases t) (auto split: if_splits)
next
  case (Cons c cs)
  then show ?case by (cases t) (auto split: if_splits)
qed

lemma quote_unique: "quote s @ r = quote t @ r' \<Longrightarrow> s = t \<and> r = r'"
  using escape_unique [of s r t r'] by (simp add: quote_def)


lemma num_head: "\<exists>c cs. ser (VNum i) = c # cs \<and> (c = CHR ''-'' \<or> is_digit c)"
proof -
  obtain d ds where d: "digits (nat \<bar>i\<bar>) = d # ds"
    using digits_nonempty [of "nat \<bar>i\<bar>"] by (cases "digits (nat \<bar>i\<bar>)") auto
  with digits_all [of "nat \<bar>i\<bar>"] have "is_digit d" by simp
  with d show ?thesis by simp
qed

lemma num_unique:
  assumes "ser (VNum i) @ r = ser (VNum j) @ r'" "ok_rest r" "ok_rest r'"
  shows "i = j \<and> r = r'"
proof -
  let ?di = "digits (nat \<bar>i\<bar>)" and ?dj = "digits (nat \<bar>j\<bar>)"
  obtain a as where a: "?di = a # as" and da: "is_digit a"
    using digits_nonempty [of "nat \<bar>i\<bar>"] digits_all [of "nat \<bar>i\<bar>"]
    by (cases ?di) auto
  obtain b bs where b: "?dj = b # bs" and db: "is_digit b"
    using digits_nonempty [of "nat \<bar>j\<bar>"] digits_all [of "nat \<bar>j\<bar>"]
    by (cases ?dj) auto
  have minus: "\<not> is_digit CHR ''-''" by (simp add: is_digit_def)
  have sign: "(i < 0) = (j < 0)" and rest: "?di @ r = ?dj @ r'"
    using assms(1) a b da db minus by (auto split: if_splits)
  from digit_run_unique [OF digits_all digits_all assms(2) assms(3) rest]
  have dd: "?di = ?dj" and r: "r = r'" by auto
  from dd have "nat \<bar>i\<bar> = nat \<bar>j\<bar>" by (rule digits_inj)
  with sign r show ?thesis by auto
qed

lemma ser_head:
  "supported v \<Longrightarrow> \<exists>c cs. ser v = c # cs \<and> c \<noteq> CHR '']'' \<and> c \<noteq> CHR ''}''"
proof (cases v)
  case (VNum i)
  from num_head [of i] obtain c cs where "ser (VNum i) = c # cs" "c = CHR ''-'' \<or> is_digit c"
    by blast
  then show ?thesis unfolding VNum by (auto simp: is_digit_def)
qed (auto simp: quote_def)


lemma comma_ok: "ok_rest (CHR '','' # r)"
  by (simp add: is_digit_def)

lemma elems_unique:
  assumes "\<And>x v r r'. x \<in> set xs \<Longrightarrow> supported v \<Longrightarrow> ok_rest r \<Longrightarrow> ok_rest r' \<Longrightarrow>
             ser x @ r = ser v @ r' \<Longrightarrow> x = v \<and> r = r'"
    and "list_all supported xs" and "list_all supported ys"
    and "concat (map (\<lambda>x. ser x @ '','') xs) @ CHR '']'' # r =
         concat (map (\<lambda>x. ser x @ '','') ys) @ CHR '']'' # r'"
  shows "xs = ys \<and> r = r'"
  using assms
proof (induction xs arbitrary: ys)
  case Nil
  show ?case
  proof (cases ys)
    case Nil
    with Nil.prems show ?thesis by simp
  next
    case (Cons y ys')
    with Nil.prems have "supported y" by simp
    from ser_head [OF this] Nil.prems(4) show ?thesis by (auto simp: Cons)
  qed
next
  case (Cons x xs)
  show ?case
  proof (cases ys)
    case Nil
    from Cons.prems have "supported x" by simp
    from ser_head [OF this] Cons.prems(4) show ?thesis by (auto simp: Nil)
  next
    case (Cons y ys')
    from Cons.prems(3) have sy: "supported y" and sys: "list_all supported ys'"
      by (simp_all add: Cons)
    let ?rx = "CHR '','' # concat (map (\<lambda>x. ser x @ '','') xs) @ CHR '']'' # r"
    let ?ry = "CHR '','' # concat (map (\<lambda>x. ser x @ '','') ys') @ CHR '']'' # r'"
    from Cons.prems(4) have eq: "ser x @ ?rx = ser y @ ?ry" by (simp add: Cons)
    from Cons.prems(1) [OF _ sy comma_ok comma_ok eq]
    have xy: "x = y" and rest: "?rx = ?ry" by auto
    from rest have rest': "concat (map (\<lambda>x. ser x @ '','') xs) @ CHR '']'' # r =
        concat (map (\<lambda>x. ser x @ '','') ys') @ CHR '']'' # r'" by simp
    have "xs = ys' \<and> r = r'"
    proof (rule Cons.IH [OF _ _ sys rest'])
      show "list_all supported xs" using Cons.prems(2) by simp
    next
      fix x' v r r'
      assume "x' \<in> set xs" "supported v" "ok_rest r" "ok_rest r'" "ser x' @ r = ser v @ r'"
      then show "x' = v \<and> r = r'" using Cons.prems(1) [of x' v r r'] by simp
    qed
    with xy show ?thesis by (simp add: Cons)
  qed
qed

lemma fields_unique:
  assumes "\<And>kv v r r'. kv \<in> set kvs \<Longrightarrow> supported v \<Longrightarrow> ok_rest r \<Longrightarrow> ok_rest r' \<Longrightarrow>
             ser (snd kv) @ r = ser v @ r' \<Longrightarrow> snd kv = v \<and> r = r'"
    and "list_all (\<lambda>kv. supported (snd kv)) kvs" and "list_all (\<lambda>kv. supported (snd kv)) kvs'"
    and "concat (map (\<lambda>kv. quote (fst kv) @ '':'' @ ser (snd kv) @ '','') kvs) @ CHR ''}'' # r =
         concat (map (\<lambda>kv. quote (fst kv) @ '':'' @ ser (snd kv) @ '','') kvs') @ CHR ''}'' # r'"
  shows "kvs = kvs' \<and> r = r'"
  using assms
proof (induction kvs arbitrary: kvs')
  case Nil
  then show ?case by (cases kvs') (auto simp: quote_def)
next
  case (Cons x xs)
  show ?case
  proof (cases kvs')
    case Nil
    with Cons.prems(4) show ?thesis by (auto simp: quote_def)
  next
    case (Cons y ys')
    from Cons.prems(3) have sy: "supported (snd y)" and sys: "list_all (\<lambda>kv. supported (snd kv)) ys'"
      by (simp_all add: Cons)
    let ?tx = "concat (map (\<lambda>kv. quote (fst kv) @ '':'' @ ser (snd kv) @ '','') xs) @ CHR ''}'' # r"
    let ?ty = "concat (map (\<lambda>kv. quote (fst kv) @ '':'' @ ser (snd kv) @ '','') ys') @ CHR ''}'' # r'"
    from Cons.prems(4)
    have "quote (fst x) @ (CHR '':'' # ser (snd x) @ CHR '','' # ?tx) =
          quote (fst y) @ (CHR '':'' # ser (snd y) @ CHR '','' # ?ty)"
      by (simp add: Cons)
    from quote_unique [OF this]
    have k: "fst x = fst y" and eq: "ser (snd x) @ CHR '','' # ?tx = ser (snd y) @ CHR '','' # ?ty"
      by auto
    from Cons.prems(1) [OF _ sy comma_ok comma_ok eq]
    have v: "snd x = snd y" and rest: "?tx = ?ty" by auto
    have "xs = ys' \<and> r = r'"
    proof (rule Cons.IH [OF _ _ sys rest])
      show "list_all (\<lambda>kv. supported (snd kv)) xs" using Cons.prems(2) by simp
    next
      fix kv v r r'
      assume "kv \<in> set xs" "supported v" "ok_rest r" "ok_rest r'" "ser (snd kv) @ r = ser v @ r'"
      then show "snd kv = v \<and> r = r'" using Cons.prems(1) [of kv v r r'] by simp
    qed
    with k v show ?thesis by (simp add: Cons prod_eq_iff)
  qed
qed

lemma num_clash: "c # x = ser (VNum j) @ r \<Longrightarrow> c = CHR ''-'' \<or> is_digit c"
  using num_head [of j] by (auto simp del: ser.simps)

lemma ser_unique:
  "supported u \<Longrightarrow> supported v \<Longrightarrow> ok_rest r \<Longrightarrow> ok_rest r' \<Longrightarrow>
   ser u @ r = ser v @ r' \<Longrightarrow> u = v \<and> r = r'"
proof (induction u arbitrary: v r r')
  case VNull
  then show ?case
    by (cases v)
      (auto simp: quote_def is_digit_def simp del: ser.simps(3) split: if_splits dest!: num_clash)
next
  case (VBool b)
  then show ?case
    by (cases v)
      (auto simp: quote_def is_digit_def simp del: ser.simps(3) split: if_splits dest!: num_clash)
next
  case (VNum i)
  show ?case
  proof (cases v)
    case (VNum j)
    with VNum.prems num_unique [of i r j r'] show ?thesis by simp
  qed (use VNum.prems in \<open>auto simp: quote_def is_digit_def simp del: ser.simps(3)
         split: if_splits dest!: num_clash [OF sym]\<close>)
next
  case (VStr s)
  have "\<And>t. v = VStr t \<Longrightarrow> s = t \<and> r = r'"
    using VStr.prems quote_unique [of s r _ r'] by auto
  then show ?case using VStr.prems
    by (cases v)
      (auto simp: quote_def is_digit_def simp del: ser.simps(3) split: if_splits dest!: num_clash)
next
  case (VArr xs)
  have "\<And>ys. v = VArr ys \<Longrightarrow> xs = ys \<and> r = r'"
  proof -
    fix ys assume v: "v = VArr ys"
    show "xs = ys \<and> r = r'"
    proof (rule elems_unique)
      show "list_all supported xs" using VArr.prems by simp
      show "list_all supported ys" using VArr.prems v by simp
      show "concat (map (\<lambda>x. ser x @ '','') xs) @ CHR '']'' # r =
         concat (map (\<lambda>x. ser x @ '','') ys) @ CHR '']'' # r'"
        using VArr.prems v by simp
    next
      fix x w q q'
      assume "x \<in> set xs" "supported w" "ok_rest q" "ok_rest q'" "ser x @ q = ser w @ q'"
      moreover from VArr.prems \<open>x \<in> set xs\<close> have "supported x" by (simp add: list_all_iff)
      ultimately show "x = w \<and> q = q'" using VArr.IH by blast
    qed
  qed
  then show ?case using VArr.prems
    by (cases v)
      (auto simp: quote_def is_digit_def simp del: ser.simps(3) split: if_splits dest!: num_clash)
next
  case (VObj kvs)
  have "\<And>kvs'. v = VObj kvs' \<Longrightarrow> kvs = kvs' \<and> r = r'"
  proof -
    fix kvs' assume v: "v = VObj kvs'"
    show "kvs = kvs' \<and> r = r'"
    proof (rule fields_unique)
      show "list_all (\<lambda>kv. supported (snd kv)) kvs" using VObj.prems by simp
      show "list_all (\<lambda>kv. supported (snd kv)) kvs'" using VObj.prems v by simp
      show "concat (map (\<lambda>kv. quote (fst kv) @ '':'' @ ser (snd kv) @ '','') kvs) @ CHR ''}'' # r =
         concat (map (\<lambda>kv. quote (fst kv) @ '':'' @ ser (snd kv) @ '','') kvs') @ CHR ''}'' # r'"
        using VObj.prems v by simp
    next
      fix kv w q q'
      assume "kv \<in> set kvs" "supported w" "ok_rest q" "ok_rest q'" "ser (snd kv) @ q = ser w @ q'"
      moreover from VObj.prems \<open>kv \<in> set kvs\<close> have "supported (snd kv)" by (simp add: list_all_iff)
      moreover have "snd kv \<in> Basic_BNFs.snds kv" by (cases kv) simp
      ultimately show "snd kv = w \<and> q = q'" using VObj.IH by blast
    qed
  qed
  then show ?case using VObj.prems
    by (cases v)
      (auto simp: quote_def is_digit_def simp del: ser.simps(3) split: if_splits dest!: num_clash)
next
  case (VOpaque n)
  then show ?case by simp
qed

lemma sort_key_fst_unique:
  assumes "distinct (map fst xs)" and "distinct (map fst ys)" and "set xs = set ys"
  shows "sort_key fst xs = sort_key fst ys"
proof -
  let ?xs = "sort_key fst xs" and ?ys = "sort_key fst ys"
  have inj: "inj_on fst (set xs)" using assms(1) by (simp add: distinct_map)
  have dx: "distinct (map fst ?xs)" using assms(1) by (simp add: distinct_map)
  have dy: "distinct (map fst ?ys)" using assms(2) by (simp add: distinct_map)
  have "set (map fst ?xs) = set (map fst ?ys)" using assms(3) by simp
  with dx dy have keys: "map fst ?xs = map fst ?ys"
    by (intro sorted_distinct_set_unique) simp_all
  then have len: "length ?xs = length ?ys" by (metis length_map)
  show ?thesis
  proof (rule nth_equalityI [OF len])
    fix i assume i: "i < length ?xs"
    then have "?xs ! i \<in> set xs" by (metis nth_mem set_sort)
    moreover from i len have "?ys ! i \<in> set xs" by (metis nth_mem set_sort assms(3))
    moreover from keys i len have "fst (?xs ! i) = fst (?ys ! i)"
      by (metis nth_map)
    ultimately show "?xs ! i = ?ys ! i" using inj by (simp add: inj_on_def)
  qed
qed

lemma supported_canon: "supported (canon v) = supported v"
  by (induction v) (auto simp: list_all_iff)

lemma wf_member: "wf_value (VObj kvs) \<Longrightarrow> (k, v) \<in> set kvs \<Longrightarrow> wf_value v"
  by (auto simp: list_all_iff)

lemma canon_eq_iff:
  "wf_value u \<Longrightarrow> wf_value v \<Longrightarrow> (canon u = canon v) = deep_eq u v"
proof (induction u arbitrary: v)
  case (VArr xs)
  show ?case
  proof (cases v)
    case (VArr ys)
    have "(map canon xs = map canon ys) = list_all2 (\<lambda>x y. canon x = canon y) xs ys"
      by (simp add: list_all2_map1 list_all2_map2 flip: list.rel_eq)
    also have "\<dots> = list_all2 deep_eq xs ys"
    proof
      assume "list_all2 (\<lambda>x y. canon x = canon y) xs ys"
      then show "list_all2 deep_eq xs ys"
      proof (rule list.rel_mono_strong)
        fix x y assume "x \<in> set xs" "y \<in> set ys" "canon x = canon y"
        with VArr.IH [of x y] VArr.prems \<open>v = VArr ys\<close> show "deep_eq x y"
          by (simp add: list_all_iff)
      qed
    next
      assume "list_all2 deep_eq xs ys"
      then show "list_all2 (\<lambda>x y. canon x = canon y) xs ys"
      proof (rule list.rel_mono_strong)
        fix x y assume "x \<in> set xs" "y \<in> set ys" "deep_eq x y"
        with VArr.IH [of x y] VArr.prems \<open>v = VArr ys\<close> show "canon x = canon y"
          by (simp add: list_all_iff)
      qed
    qed
    finally show ?thesis by (simp add: VArr)
  qed auto
next
  case (VObj a)
  show ?case
  proof (cases v)
    case (VObj b)
    let ?c = "\<lambda>kv. (fst kv, canon (snd kv))"
    let ?a = "map ?c a" and ?b = "map ?c b"
    from VObj.prems have da: "distinct (map fst a)" and db: "distinct (map fst b)"
      by (simp_all add: VObj)
    have ka: "map fst ?a = map fst a" and kb: "map fst ?b = map fst b" by (simp_all add: comp_def)
    have IH: "\<And>k x y. (k, x) \<in> set a \<Longrightarrow> (k, y) \<in> set b \<Longrightarrow> (canon x = canon y) = deep_eq x y"
    proof -
      fix k x y assume "(k, x) \<in> set a" "(k, y) \<in> set b"
      moreover then have "wf_value x" "wf_value y"
        using VObj.prems wf_member unfolding VObj by blast+
      ultimately show "(canon x = canon y) = deep_eq x y"
        using VObj.IH [of "(k, x)" x y] by simp
    qed
    have "(sort_key fst ?a = sort_key fst ?b) = (set ?a = set ?b)"
    proof
      assume "sort_key fst ?a = sort_key fst ?b"
      then have "set (sort_key fst ?a) = set (sort_key fst ?b)" by simp
      then show "set ?a = set ?b" by (simp only: set_sort)
    next
      assume "set ?a = set ?b"
      then show "sort_key fst ?a = sort_key fst ?b"
        using da db by (intro sort_key_fst_unique) (simp_all only: ka kb)
    qed
    also have "\<dots> = deep_eq (VObj a) (VObj b)"
    proof
      assume eq: "set ?a = set ?b"
      then have "fst ` set ?a = fst ` set ?b" by simp
      then have keys: "fst ` set a = fst ` set b" by (simp add: image_image)
      have "\<forall>kv\<in>set a. case map_of b (fst kv) of None \<Rightarrow> False | Some v' \<Rightarrow> deep_eq (snd kv) v'"
      proof
        fix kv assume kv: "kv \<in> set a"
        then have "?c kv \<in> set ?b" using eq by auto
        then obtain kv' where kv': "kv' \<in> set b" "fst kv' = fst kv" "canon (snd kv') = canon (snd kv)"
          by auto
        then have m: "map_of b (fst kv) = Some (snd kv')"
          using db by (metis map_of_is_SomeI prod.collapse)
        from IH [of "fst kv" "snd kv" "snd kv'"] kv kv' have "deep_eq (snd kv) (snd kv')"
          by (metis prod.collapse)
        with m show "case map_of b (fst kv) of None \<Rightarrow> False | Some v' \<Rightarrow> deep_eq (snd kv) v'"
          by simp
      qed
      with keys show "deep_eq (VObj a) (VObj b)" by (simp add: list_all_iff)
    next
      assume "deep_eq (VObj a) (VObj b)"
      then have keys: "fst ` set a = fst ` set b"
        and vals: "\<forall>kv\<in>set a. case map_of b (fst kv) of None \<Rightarrow> False | Some v' \<Rightarrow> deep_eq (snd kv) v'"
        by (simp_all add: list_all_iff)
      have match: "\<And>k x. (k, x) \<in> set a \<Longrightarrow> \<exists>y. (k, y) \<in> set b \<and> canon x = canon y"
      proof -
        fix k x assume kx: "(k, x) \<in> set a"
        with vals obtain y where y: "map_of b k = Some y" "deep_eq x y"
          by (force split: option.splits)
        then have "(k, y) \<in> set b" by (simp add: map_of_SomeD)
        with IH [OF kx this] y show "\<exists>y. (k, y) \<in> set b \<and> canon x = canon y" by blast
      qed
      show "set ?a = set ?b"
      proof (intro equalityI subsetI)
        fix p assume "p \<in> set ?a"
        then obtain k x where "(k, x) \<in> set a" "p = (k, canon x)" by auto
        with match [of k x] show "p \<in> set ?b" by force
      next
        fix p assume "p \<in> set ?b"
        then obtain k y where ky: "(k, y) \<in> set b" "p = (k, canon y)" by auto
        then have "k \<in> fst ` set a" using keys by force
        then obtain x where kx: "(k, x) \<in> set a" by auto
        from match [OF this] obtain y' where y': "(k, y') \<in> set b" "canon x = canon y'" by blast
        with ky db have "y' = y" by (meson eq_key_imp_eq_value)
        with y' kx ky show "p \<in> set ?a" by force
      qed
    qed
    finally show ?thesis by (simp add: VObj)
  qed auto
next
  case VNull
  show ?case by (cases v) auto
next
  case (VBool b)
  show ?case by (cases v) auto
next
  case (VNum i)
  show ?case by (cases v) auto
next
  case (VStr s)
  show ?case by (cases v) auto
next
  case (VOpaque n)
  show ?case by (cases v) auto
qed


lemma bracket_ok: "ok_rest '']''"
  by (simp add: is_digit_def)

lemma serialize_unique:
  assumes "supported u" and "supported v" and "serialize f u = serialize g v"
  shows "f = g \<and> u = v"
proof -
  from assms(3)
  have "quote f @ (CHR '','' # ser u @ '']'') = quote g @ (CHR '','' # ser v @ '']'')"
    by (simp add: serialize_def)
  from quote_unique [OF this] have fg: "f = g" and "ser u @ '']'' = ser v @ '']''" by auto
  from ser_unique [OF assms(1) assms(2) bracket_ok bracket_ok this(2)] fg
  show ?thesis by simp
qed

text \<open>
  C2. Two query identities with the same function reference whose argument mappings
  hold the same key/value pairs in a different insertion order have the same key. The
  same is true when the order differs inside nested mappings, that is, whenever the two
  identities are equivalent.
\<close>

theorem createQueryKey_ignores_key_order:
  "(distinct (map fst a) \<and> distinct (map fst b) \<and> set a = set b \<longrightarrow>
      createQueryKey f a = createQueryKey f b) \<and>
   (wf_value (VObj a) \<and> wf_value (VObj b) \<and> equivalent (f, a) (f, b) \<longrightarrow>
      createQueryKey f a = createQueryKey f b)"
proof (intro conjI impI)
  assume h: "distinct (map fst a) \<and> distinct (map fst b) \<and> set a = set b"
  let ?c = "\<lambda>kv. (fst kv, canon (snd kv))"
  have k: "map fst (map ?c a) = map fst a" "map fst (map ?c b) = map fst b"
    by (simp_all add: comp_def)
  have "sort_key fst (map ?c a) = sort_key fst (map ?c b)"
    using h by (intro sort_key_fst_unique) (simp_all only: k set_map)
  moreover have "supported (VObj a) = supported (VObj b)"
    using h by (simp add: list_all_iff)
  ultimately show "createQueryKey f a = createQueryKey f b"
    by (simp add: createQueryKey_def)
next
  assume h: "wf_value (VObj a) \<and> wf_value (VObj b) \<and> equivalent (f, a) (f, b)"
  then have c: "canon (VObj a) = canon (VObj b)"
    using canon_eq_iff [of "VObj a" "VObj b"] by (simp add: equivalent_def)
  then have "supported (canon (VObj a)) = supported (canon (VObj b))" by simp
  then have "supported (VObj a) = supported (VObj b)" by (simp only: supported_canon)
  with c show "createQueryKey f a = createQueryKey f b"
    by (simp add: createQueryKey_def del: canon.simps supported.simps)
qed

theorem createQueryKey_ignores_key_order_witness:
  "createQueryKey ''listMessages'' [(''channel'', VStr ''general''), (''limit'', VNum 10)] =
   createQueryKey ''listMessages'' [(''limit'', VNum 10), (''channel'', VStr ''general'')] \<and>
   createQueryKey ''find'' [(''where'', VObj [(''a'', VNum 1), (''b'', VNull)])] =
   createQueryKey ''find'' [(''where'', VObj [(''b'', VNull), (''a'', VNum 1)])]"
proof -
  have 1: "distinct (map fst [(''channel'', VStr ''general''), (''limit'', VNum 10)]) \<and>
      distinct (map fst [(''limit'', VNum 10), (''channel'', VStr ''general'')]) \<and>
      set [(''channel'', VStr ''general''), (''limit'', VNum 10)] =
      set [(''limit'', VNum 10), (''channel'', VStr ''general'')]"
    by auto
  have 2: "wf_value (VObj [(''where'', VObj [(''a'', VNum 1), (''b'', VNull)])]) \<and>
      wf_value (VObj [(''where'', VObj [(''b'', VNull), (''a'', VNum 1)])]) \<and>
      equivalent (''find'', [(''where'', VObj [(''a'', VNum 1), (''b'', VNull)])])
        (''find'', [(''where'', VObj [(''b'', VNull), (''a'', VNum 1)])])"
    by (auto simp: equivalent_def)
  from createQueryKey_ignores_key_order
      [of "[(''channel'', VStr ''general''), (''limit'', VNum 10)]"
          "[(''limit'', VNum 10), (''channel'', VStr ''general'')]" "''listMessages''"] 1
    createQueryKey_ignores_key_order
      [of "[(''where'', VObj [(''a'', VNum 1), (''b'', VNull)])]"
          "[(''where'', VObj [(''b'', VNull), (''a'', VNum 1)])]" "''find''"] 2
  show ?thesis by blast
qed

text \<open>
  C3. Two query identities with well-formed arguments in the supported domain that are
  not equivalent have distinct keys, and each of them has a key. The number 1 and
  the string \<open>''1''\<close> give different keys.
\<close>

theorem createQueryKey_injective:
  assumes "wf_value (VObj a)" and "wf_value (VObj b)"
    and "supported (VObj a)" and "supported (VObj b)"
    and "\<not> equivalent (f, a) (g, b)"
  shows "createQueryKey f a \<noteq> createQueryKey g b \<and> createQueryKey f a \<noteq> None \<and>
         createQueryKey g b \<noteq> None"
proof -
  have sa: "supported (canon (VObj a))" and sb: "supported (canon (VObj b))"
    using assms(3,4) by (simp_all only: supported_canon)
  have "serialize f (canon (VObj a)) \<noteq> serialize g (canon (VObj b))"
  proof
    assume "serialize f (canon (VObj a)) = serialize g (canon (VObj b))"
    from serialize_unique [OF sa sb this] have "f = g" and "canon (VObj a) = canon (VObj b)"
      by auto
    with canon_eq_iff [OF assms(1) assms(2)] have "equivalent (f, a) (g, b)"
      by (simp add: equivalent_def)
    with assms(5) show False by simp
  qed
  with assms(3,4) show ?thesis
    by (simp add: createQueryKey_def del: canon.simps supported.simps)
qed

theorem createQueryKey_injective_witness:
  "createQueryKey ''f'' [(''n'', VNum 1)] \<noteq> createQueryKey ''f'' [(''n'', VStr ''1'')] \<and>
   createQueryKey ''f'' [(''n'', VNum 1)] \<noteq> None"
proof -
  have "\<not> equivalent (''f'', [(''n'', VNum 1)]) (''f'', [(''n'', VStr ''1'')])"
    by (simp add: equivalent_def)
  from createQueryKey_injective [OF _ _ _ _ this] show ?thesis by simp
qed


end
